theory Spec2Isabelle
  imports Main "HOL-Library.AList"
begin

section \<open>The content model and the builder's context\<close>

text \<open>
  A shallow embedding of \<^verbatim>\<open>dfa.py\<close>: \<^verbatim>\<open>dfa_from_group\<close> builds an
  epsilon-NFA from a tree of \<^verbatim>\<open>XsdElement\<close> and \<^verbatim>\<open>XsdGroup\<close> objects, hands it
  to two automaton libraries for determinisation and minimisation, and renames the
  states of the result.

  A state name \<^verbatim>\<open>"q%d" % n\<close> is the number \<open>n\<close>; the symbol \<^verbatim>\<open>""\<close> is the empty
  string; the pending target \<^verbatim>\<open>None\<close> is \<open>None\<close>.

  An object of the tree is named by its path from the root (the list of child
  positions). The fields \<^verbatim>\<open>name\<close>, \<^verbatim>\<open>model\<close> and \<^verbatim>\<open>occurs\<close> are never assigned
  by the code and live in the datatype. The field \<^verbatim>\<open>_group\<close> is assigned by
  \<^verbatim>\<open>_nfa_from_all\<close>, so it lives in a store, \<open>group\<close>, from paths to lists of
  child slots: the slot \<open>i\<close> of a group stands for a reference to the \<open>i\<close>-th
  object of its \<open>members\<close>, the children it had when the tree was handed over.
\<close>

type_synonym symbol = string
type_synonym path = "nat list"

datatype node =
    XsdElement (name: string) (occurs: "nat \<times> nat option")
  | XsdGroup (model: string) (members: "node list") (occurs: "nat \<times> nat option")

text \<open>
  The exceptions the code can raise. Both \<^verbatim>\<open>NotImplementedError\<close>s of
  \<^verbatim>\<open>_nfa_from_node\<close> are kept apart: \<open>UnsupportedGroupKind\<close> (line 108) and
  \<open>UnsupportedOccursError\<close> (line 129). \<open>DanglingSlot\<close> is no exception of the
  code: it is what the model answers when a slot of the store points outside
  \<open>members\<close>, which no list of object references can do.
\<close>

datatype error =
  UnsupportedGroupKind | UnsupportedOccursError | IndexError | KeyError | DanglingSlot

record ctx =
  nfa_states :: "nat set"
  nfa_state_transitions :: "(nat \<times> (symbol \<times> nat option set) list) list"
  elements :: "(string \<times> path) list"
  group :: "path \<Rightarrow> nat list"

type_synonym fragment = "nat \<times> nat list"
type_synonym 'a res = "(error + 'a) \<times> ctx"

text \<open>The \<^verbatim>\<open>_group\<close> lists of a tree as it is handed over: every slot in its place.\<close>

fun node_at :: "node \<Rightarrow> path \<Rightarrow> node option" where
  "node_at t [] = Some t"
| "node_at (XsdElement nm occ) (i # p) = None"
| "node_at (XsdGroup m cs occ) (i # p) = (if i < length cs then node_at (cs ! i) p else None)"

definition group_of :: "node \<Rightarrow> path \<Rightarrow> nat list" where
  "group_of t p =
     (case node_at t p of
        Some (XsdGroup m cs occ) \<Rightarrow> [0..<length cs]
      | _ \<Rightarrow> [])"

definition init_ctx :: "(path \<Rightarrow> nat list) \<Rightarrow> ctx" where
  "init_ctx g = \<lparr>nfa_states = {}, nfa_state_transitions = [], elements = [], group = g\<rparr>"

section \<open>The builder's primitives (lines 28 to 48)\<close>

definition new_state :: "ctx \<Rightarrow> nat \<times> ctx" where
  "new_state c =
     (let x = card (nfa_states c) in (x, c\<lparr>nfa_states := insert x (nfa_states c)\<rparr>))"

definition remove_state :: "nat \<Rightarrow> ctx \<Rightarrow> unit res" where
  "remove_state x c =
     (if x \<notin> nfa_states c then (Inl KeyError, c)
      else
        (let c1 = c\<lparr>nfa_states := nfa_states c - {x}\<rparr> in
         if map_of (nfa_state_transitions c1) x = None then (Inl KeyError, c1)
         else (Inr (),
               c1\<lparr>nfa_state_transitions := AList.delete x (nfa_state_transitions c1)\<rparr>)))"

definition add_transition :: "nat \<Rightarrow> symbol \<Rightarrow> nat option \<Rightarrow> ctx \<Rightarrow> ctx" where
  "add_transition state input nxt c =
     (let T = nfa_state_transitions c in
      c\<lparr>nfa_state_transitions :=
        (case map_of T state of
           None \<Rightarrow> AList.update state [(input, {nxt})] T
         | Some m \<Rightarrow>
             (case map_of m input of
                None \<Rightarrow> AList.update state (AList.update input {nxt} m) T
              | Some v \<Rightarrow> AList.update state (AList.update input (insert nxt v) m) T))\<rparr>)"

definition resolve :: "nat \<Rightarrow> nat option \<Rightarrow> nat option" where
  "resolve nxt x = (case x of None \<Rightarrow> Some nxt | Some y \<Rightarrow> Some y)"

definition patch :: "nat \<Rightarrow> nat \<Rightarrow> ctx \<Rightarrow> unit res" where
  "patch state nxt c =
     (let T = nfa_state_transitions c in
      case map_of T state of
        None \<Rightarrow> (Inl KeyError, c)
      | Some m \<Rightarrow>
          (Inr (), c\<lparr>nfa_state_transitions :=
             AList.update state (map (\<lambda>(k, v). (k, resolve nxt ` v)) m) T\<rparr>))"

text \<open>
  \<^verbatim>\<open>for v in vacant: _patch(v, next)\<close>. A vacant set is a list without repetitions
  (\<open>List.insert\<close>, \<open>List.union\<close>); Python fixes no order on a set, the model takes
  the list's.
\<close>

fun patch_all :: "nat list \<Rightarrow> nat \<Rightarrow> ctx \<Rightarrow> unit res" where
  "patch_all [] nxt c = (Inr (), c)"
| "patch_all (v # vs) nxt c =
     (case patch v nxt c of
        (Inl e, c') \<Rightarrow> (Inl e, c')
      | (Inr u, c') \<Rightarrow> patch_all vs nxt c')"

section \<open>\<^verbatim>\<open>itertools.permutations\<close>\<close>

text \<open>
  The tuples come in lexicographic order of the positions, the identity first;
  elements are told apart by position, not by value, and the empty list has one
  permutation.
\<close>

fun picks :: "'a list \<Rightarrow> ('a \<times> 'a list) list" where
  "picks [] = []"
| "picks (x # xs) = (x, xs) # map (\<lambda>(y, ys). (y, x # ys)) (picks xs)"

lemma picks_length: "(y, ys) \<in> set (picks xs) \<Longrightarrow> Suc (length ys) = length xs"
  by (induction xs arbitrary: y ys) auto

function permutations :: "'a list \<Rightarrow> 'a list list" where
  "permutations xs =
     (if xs = [] then [[]]
      else concat (map (\<lambda>(y, ys). map ((#) y) (permutations ys)) (picks xs)))"
  by pat_completeness auto
termination
  by (relation "measure length") (auto dest: picks_length)

declare permutations.simps [simp del]

section \<open>The fragment builder (lines 51 to 129)\<close>

definition nfa_from_element :: "path \<Rightarrow> string \<Rightarrow> ctx \<Rightarrow> fragment res" where
  "nfa_from_element p nm c =
     (case new_state c of (x, c1) \<Rightarrow>
        (Inr (x, [x]),
         (add_transition x nm None c1)\<lparr>elements := AList.update nm p (elements c1)\<rparr>))"

text \<open>Lines 110 to 129: the occurrence pair, applied to the base fragment.\<close>

definition wrap_occurs :: "nat \<times> nat option \<Rightarrow> fragment res \<Rightarrow> fragment res" where
  "wrap_occurs occ r =
     (case r of
        (Inl e, c) \<Rightarrow> (Inl e, c)
      | (Inr (init, vacant), c) \<Rightarrow>
          if occ = (1, Some 1) then (Inr (init, vacant), c)
          else if occ = (0, Some 1) then
            (Inr (init, List.insert init vacant), add_transition init '''' None c)
          else if occ = (0, None) then
            (case patch_all vacant init c of
               (Inl e, c1) \<Rightarrow> (Inl e, c1)
             | (Inr u, c1) \<Rightarrow> (Inr (init, [init]), add_transition init '''' None c1))
          else if occ = (1, None) then
            (case new_state c of (nxt, c1) \<Rightarrow>
               (case patch_all vacant nxt c1 of
                  (Inl e, c2) \<Rightarrow> (Inl e, c2)
                | (Inr u, c2) \<Rightarrow>
                    (Inr (init, [nxt]),
                     add_transition nxt '''' None (add_transition nxt '''' (Some init) c2))))
          else (Inl UnsupportedOccursError, c))"

text \<open>
  The five mutually recursive functions of the source, with their loops:
  \<open>nfa_from_member p cs i\<close> is \<^verbatim>\<open>_nfa_from_node\<close> on the object in slot \<open>i\<close> of the
  group at \<open>p\<close>; \<open>sequence_rest\<close> is the loop of lines 60 to 64, \<open>choice_loop\<close> that
  of lines 73 to 76, \<open>all_loop\<close> that of lines 87 to 91. \<^verbatim>\<open>t._group\<close> is read
  from the store where the source reads it.
\<close>

definition build_measure ::
  "((path \<times> node \<times> ctx) + (path \<times> node list \<times> nat \<times> ctx) + (path \<times> node list \<times> ctx)) +
   (path \<times> node list \<times> nat list \<times> nat \<times> nat list \<times> ctx) +
   (path \<times> node list \<times> nat list \<times> nat \<times> nat list \<times> ctx) +
   (path \<times> node list \<times> nat list list \<times> nat \<times> nat list \<times> ctx)
   \<Rightarrow> nat \<times> nat \<times> nat" where
  "build_measure a =
     (case a of
        Inl (Inl (p, t, c)) \<Rightarrow> (size t, 0, 0)
      | Inl (Inr (Inl (p, cs, i, c))) \<Rightarrow> (size_list size cs, 0, 0)
      | Inl (Inr (Inr (p, cs, c))) \<Rightarrow> (size_list size cs, 2, 0)
      | Inr (Inl (p, cs, is, init, vacant, c)) \<Rightarrow> (size_list size cs, 1, length is)
      | Inr (Inr (Inl (p, cs, is, x, vacants, c))) \<Rightarrow> (size_list size cs, 1, length is)
      | Inr (Inr (Inr (p, cs, qs, x, vacants, c))) \<Rightarrow> (size_list size cs, 3, length qs))"

lemma size_nth_less: "i < length cs \<Longrightarrow> size (cs ! i) < size_list size cs"
proof (induction cs arbitrary: i)
  case Nil
  then show ?case by simp
next
  case (Cons a cs)
  show ?case
  proof (cases i)
    case 0
    then show ?thesis by simp
  next
    case (Suc j)
    with Cons.IH [of j] Cons.prems show ?thesis by simp
  qed
qed

function (sequential)
    nfa_from_node :: "path \<Rightarrow> node \<Rightarrow> ctx \<Rightarrow> fragment res"
  and nfa_from_member :: "path \<Rightarrow> node list \<Rightarrow> nat \<Rightarrow> ctx \<Rightarrow> fragment res"
  and nfa_from_sequence :: "path \<Rightarrow> node list \<Rightarrow> ctx \<Rightarrow> fragment res"
  and sequence_rest ::
    "path \<Rightarrow> node list \<Rightarrow> nat list \<Rightarrow> nat \<Rightarrow> nat list \<Rightarrow> ctx \<Rightarrow> fragment res"
  and choice_loop ::
    "path \<Rightarrow> node list \<Rightarrow> nat list \<Rightarrow> nat \<Rightarrow> nat list \<Rightarrow> ctx \<Rightarrow> fragment res"
  and all_loop ::
    "path \<Rightarrow> node list \<Rightarrow> nat list list \<Rightarrow> nat \<Rightarrow> nat list \<Rightarrow> ctx \<Rightarrow> fragment res"
where
  "nfa_from_node p (XsdElement nm occ) c = wrap_occurs occ (nfa_from_element p nm c)"
| "nfa_from_node p (XsdGroup m cs occ) c =
     (if m = ''sequence'' then wrap_occurs occ (nfa_from_sequence p cs c)
      else if m = ''choice'' then
        (case new_state c of (x, c1) \<Rightarrow>
           wrap_occurs occ (choice_loop p cs (group c1 p) x [] c1))
      else if m = ''all'' then
        (let original_group = group c p in
         case new_state c of (x, c1) \<Rightarrow>
           wrap_occurs occ
             (case all_loop p cs (permutations (group c1 p)) x [] c1 of
                (Inl e, c2) \<Rightarrow> (Inl e, c2)
              | (Inr f, c2) \<Rightarrow> (Inr f, c2\<lparr>group := (group c2)(p := original_group)\<rparr>)))
      else (Inl UnsupportedGroupKind, c))"
| "nfa_from_member p cs i c =
     (if i < length cs then nfa_from_node (p @ [i]) (cs ! i) c else (Inl DanglingSlot, c))"
| "nfa_from_sequence p cs c =
     (case group c p of
        [] \<Rightarrow> (Inl IndexError, c)
      | i # _ \<Rightarrow>
          (case nfa_from_member p cs i c of
             (Inl e, c1) \<Rightarrow> (Inl e, c1)
           | (Inr (init, vacant), c1) \<Rightarrow>
               sequence_rest p cs (tl (group c1 p)) init vacant c1))"
| "sequence_rest p cs [] init vacant c = (Inr (init, vacant), c)"
| "sequence_rest p cs (i # is) init vacant c =
     (case nfa_from_member p cs i c of
        (Inl e, c1) \<Rightarrow> (Inl e, c1)
      | (Inr (init2, vacant2), c1) \<Rightarrow>
          (case patch_all vacant init2 c1 of
             (Inl e, c2) \<Rightarrow> (Inl e, c2)
           | (Inr u, c2) \<Rightarrow> sequence_rest p cs is init vacant2 c2))"
| "choice_loop p cs [] x vacants c = (Inr (x, vacants), c)"
| "choice_loop p cs (i # is) x vacants c =
     (case nfa_from_member p cs i c of
        (Inl e, c1) \<Rightarrow> (Inl e, c1)
      | (Inr (init, vacant), c1) \<Rightarrow>
          choice_loop p cs is x (List.union vacants vacant)
            (add_transition x '''' (Some init) c1))"
| "all_loop p cs [] x vacants c = (Inr (x, vacants), c)"
| "all_loop p cs (q # qs) x vacants c =
     (case nfa_from_sequence p cs (c\<lparr>group := (group c)(p := q)\<rparr>) of
        (Inl e, c1) \<Rightarrow> (Inl e, c1)
      | (Inr (init, vacant), c1) \<Rightarrow>
          all_loop p cs qs x (List.union vacants vacant)
            (add_transition x '''' (Some init) c1))"
  by pat_completeness auto
termination
  apply (relation "inv_image (less_than <*lex*> less_than <*lex*> less_than) build_measure")
  apply (intro wf_inv_image wf_lex_prod wf_less_than)
  apply (simp_all add: build_measure_def size_nth_less)
  done


section \<open>Finalisation and the automaton records (lines 131 to 153)\<close>

text \<open>
  The keyword arguments of automata-lib's \<^verbatim>\<open>NFA\<close> (lines 142 to 146). Sets that the
  code iterates over are lists without repetitions.
\<close>

record nfa =
  states :: "nat set"
  input_symbols :: "symbol list"
  transitions :: "(nat \<times> (symbol \<times> nat option set) list) list"
  initial_state :: nat
  final_states :: "nat set"

text \<open>
  A state of the DFA is named after a set of NFA states: the name is modelled by the
  sorted list of their numbers, and \<^verbatim>\<open>"{}"\<close>, the trap of line 155, by the empty
  list. \<open>dfa\<close> has the attributes of automata-lib's \<^verbatim>\<open>DFA\<close> that lines 148 to 152
  read, \<open>pdfa\<close> those of \<^verbatim>\<open>third_party.DFA\<close>; a \<^verbatim>\<open>delta\<close> that raises answers
  \<open>None\<close>.
\<close>

type_synonym dstate = "nat list"

definition trap :: dstate where
  "trap = []"

record dfa =
  dfa_states :: "dstate list"
  dfa_input_symbols :: "symbol list"
  dfa_transitions :: "(dstate \<times> (symbol \<times> dstate) list) list"
  dfa_initial_state :: dstate
  dfa_final_states :: "dstate list"

record pdfa =
  pdfa_states :: "dstate list"
  pdfa_alphabet :: "symbol list"
  pdfa_delta :: "dstate \<Rightarrow> symbol \<Rightarrow> dstate option"
  pdfa_start :: dstate
  pdfa_accepts :: "dstate list"

record dfa_out =
  out_states :: "nat set"
  out_start :: nat
  out_accepts :: "nat set"
  out_transitions :: "(nat \<times> (symbol \<times> nat) list) list"
  out_elements :: "(string \<times> path) list"

text \<open>Lines 131 to 135: the accepting state, and the last vacant states patched to it.\<close>

definition finalize :: "node \<Rightarrow> ctx \<Rightarrow> (nat \<times> nat) res" where
  "finalize t c0 =
     (case nfa_from_node [] t c0 of
        (Inl e, c) \<Rightarrow> (Inl e, c)
      | (Inr (init, finals), c) \<Rightarrow>
          (case new_state c of (final, c1) \<Rightarrow>
             (case patch_all finals final
                     (c1\<lparr>nfa_state_transitions :=
                           AList.update final [] (nfa_state_transitions c1)\<rparr>) of
                (Inl e, c2) \<Rightarrow> (Inl e, c2)
              | (Inr u, c2) \<Rightarrow> (Inr (init, final), c2))))"

text \<open>Lines 137 to 146: the alphabet, and the NFA.\<close>

definition all_symbols :: "(nat \<times> (symbol \<times> nat option set) list) list \<Rightarrow> symbol list" where
  "all_symbols T = fold (\<lambda>v acc. List.union acc (map fst v)) (map snd T) []"

definition build_nfa :: "node \<Rightarrow> ctx \<Rightarrow> nfa res" where
  "build_nfa t c0 =
     (case finalize t c0 of
        (Inl e, c) \<Rightarrow> (Inl e, c)
      | (Inr (init, final), c) \<Rightarrow>
          (let syms = all_symbols (nfa_state_transitions c) in
           if '''' \<in> set syms then
             (Inr \<lparr>states = nfa_states c,
                   input_symbols = removeAll '''' syms,
                   transitions = nfa_state_transitions c,
                   initial_state = init,
                   final_states = {final}\<rparr>, c)
           else (Inl KeyError, c)))"

text \<open>Lines 148 to 152: the DFA handed to \<^verbatim>\<open>third_party.DFA\<close>, its \<^verbatim>\<open>delta\<close> the lambda.\<close>

definition pdfa_of :: "dfa \<Rightarrow> pdfa" where
  "pdfa_of d =
     \<lparr>pdfa_states = dfa_states d,
      pdfa_alphabet = dfa_input_symbols d,
      pdfa_delta = (\<lambda>q c. case map_of (dfa_transitions d) q of
                              None \<Rightarrow> None
                            | Some row \<Rightarrow> map_of row c),
      pdfa_start = dfa_initial_state d,
      pdfa_accepts = dfa_final_states d\<rparr>"

section \<open>Renaming the states (lines 158 to 166)\<close>

text \<open>A dict comprehension: the pairs are stored in order, a repeated key keeps its last value.\<close>

definition dict_of :: "('k \<times> 'v) list \<Rightarrow> ('k \<times> 'v) list" where
  "dict_of kvs = fold (\<lambda>(k, v) d. AList.update k v d) kvs []"

definition getitem :: "('k \<times> 'v) list \<Rightarrow> 'k \<Rightarrow> error + 'v" where
  "getitem d k = (case map_of d k of None \<Rightarrow> Inl KeyError | Some v \<Rightarrow> Inr v)"

fun traverse :: "('a \<Rightarrow> error + 'b) \<Rightarrow> 'a list \<Rightarrow> error + 'b list" where
  "traverse f [] = Inr []"
| "traverse f (x # xs) =
     (case f x of
        Inl e \<Rightarrow> Inl e
      | Inr y \<Rightarrow> (case traverse f xs of Inl e \<Rightarrow> Inl e | Inr ys \<Rightarrow> Inr (y # ys)))"

definition state_map_of :: "pdfa \<Rightarrow> (dstate \<times> nat) list" where
  "state_map_of P = dict_of (map (\<lambda>(v, k). (k, v)) (enumerate 0 (pdfa_states P)))"

text \<open>
  The inner comprehension of line 163, for one state \<open>q\<close>: the symbols \<open>k\<close> whose
  target is not the trap, each with the number of its target.
\<close>

fun out_row :: "pdfa \<Rightarrow> (dstate \<times> nat) list \<Rightarrow> dstate \<Rightarrow> symbol list \<Rightarrow> error + (symbol \<times> nat) list" where
  "out_row P sm q [] = Inr []"
| "out_row P sm q (k # ks) =
     (case pdfa_delta P q k of
        None \<Rightarrow> Inl KeyError
      | Some q' \<Rightarrow>
          if q' \<noteq> trap then
            (case getitem sm q' of
               Inl e \<Rightarrow> Inl e
             | Inr n \<Rightarrow> (case out_row P sm q ks of Inl e \<Rightarrow> Inl e | Inr r \<Rightarrow> Inr ((k, n) # r)))
          else out_row P sm q ks)"

definition emit :: "pdfa \<Rightarrow> (string \<times> path) list \<Rightarrow> error + dfa_out" where
  "emit P els =
     (let state_map = state_map_of P;
          live = filter (\<lambda>x. x \<noteq> trap) (pdfa_states P) in
      case traverse (getitem state_map) live of
        Inl e \<Rightarrow> Inl e
      | Inr ids \<Rightarrow>
     (case getitem state_map (pdfa_start P) of
        Inl e \<Rightarrow> Inl e
      | Inr s \<Rightarrow>
     (case traverse (getitem state_map) (filter (\<lambda>x. x \<noteq> trap) (pdfa_accepts P)) of
        Inl e \<Rightarrow> Inl e
      | Inr acc \<Rightarrow>
     (case traverse
             (\<lambda>q. case getitem state_map q of
                     Inl e \<Rightarrow> Inl e
                   | Inr n \<Rightarrow>
                       (case out_row P state_map q (pdfa_alphabet P) of
                          Inl e \<Rightarrow> Inl e
                        | Inr r \<Rightarrow> Inr (n, dict_of r)))
             live of
        Inl e \<Rightarrow> Inl e
      | Inr rows \<Rightarrow>
          Inr \<lparr>out_states = set ids,
                out_start = s,
                out_accepts = set acc,
                out_transitions = dict_of rows,
                out_elements = els\<rparr>))))"

section \<open>\<^verbatim>\<open>dfa_from_group\<close>\<close>

text \<open>
  The whole function, lines 22 to 166. automata-lib's \<^verbatim>\<open>DFA.from_nfa\<close> and
  third-party \<^verbatim>\<open>DFA.minimize\<close> are not part of the file: they are the parameters
  \<open>from_nfa\<close> and \<open>minimize\<close>. The second component of the result is the store of
  the \<^verbatim>\<open>_group\<close> fields when the function returns or raises.
\<close>

definition run_dfa_from_group ::
  "(nfa \<Rightarrow> dfa) \<Rightarrow> (pdfa \<Rightarrow> pdfa) \<Rightarrow> node \<Rightarrow> (path \<Rightarrow> nat list)
     \<Rightarrow> (error + dfa_out) \<times> (path \<Rightarrow> nat list)" where
  "run_dfa_from_group from_nfa minimize t g =
     (case build_nfa t (init_ctx g) of
        (Inl e, c) \<Rightarrow> (Inl e, group c)
      | (Inr n, c) \<Rightarrow> (emit (minimize (pdfa_of (from_nfa n))) (elements c), group c))"

section \<open>The determiniser and the minimiser\<close>

text \<open>
  Modelled from the spec: automata-lib's \<^verbatim>\<open>DFA.from_nfa\<close> and third-party
  \<^verbatim>\<open>DFA.minimize\<close> are not in the repository's file. The definitions of this
  section follow sections 4.2 and 4.3 of the specification. One thing is taken from
  the code instead: line 150 reads \<^verbatim>\<open>dfa.transitions[q][c]\<close> for every state and
  symbol, and line 155 says that the trap is the state named \<^verbatim>\<open>"{}"\<close>, so the
  empty set of NFA states is a state of the DFA like the others, where the
  specification leaves the transition out.
\<close>

subsection \<open>Epsilon closure (a worklist)\<close>

definition step_targets :: "nfa \<Rightarrow> nat \<Rightarrow> symbol \<Rightarrow> nat list" where
  "step_targets N q a =
     (case map_of (transitions N) q of
        None \<Rightarrow> []
      | Some row \<Rightarrow>
          (case map_of row a of
             None \<Rightarrow> []
           | Some tg \<Rightarrow> sorted_list_of_set (Option.these tg)))"

definition all_targets :: "nfa \<Rightarrow> nat list" where
  "all_targets N =
     concat (map (\<lambda>(q, row). concat (map (\<lambda>(a, tg). sorted_list_of_set (Option.these tg)) row))
                 (transitions N))"

lemma step_targets_subset: "set (step_targets N q a) \<subseteq> set (all_targets N)"
proof (cases "map_of (transitions N) q")
  case None
  then show ?thesis by (simp add: step_targets_def)
next
  case (Some row)
  then have r: "(q, row) \<in> set (transitions N)" by (rule map_of_SomeD)
  show ?thesis
  proof (cases "map_of row a")
    case None
    with Some show ?thesis by (simp add: step_targets_def)
  next
    case tg: (Some tg)
    then have "(a, tg) \<in> set row" by (rule map_of_SomeD)
    with r Some tg show ?thesis
      by (fastforce simp: step_targets_def all_targets_def)
  qed
qed

function closure_loop :: "nfa \<Rightarrow> nat list \<Rightarrow> nat list \<Rightarrow> nat list" where
  "closure_loop N [] seen = seen"
| "closure_loop N (q # todo) seen =
     (if q \<in> set seen then closure_loop N todo seen
      else closure_loop N (step_targets N q '''' @ todo) (q # seen))"
  by pat_completeness auto
termination
  apply (relation "inv_image (less_than <*lex*> less_than)
         (\<lambda>(N, todo, seen). (card ((set todo \<union> set (all_targets N)) - set seen), length todo))")
    apply (intro wf_inv_image wf_lex_prod wf_less_than)
   apply simp
  subgoal premises prems for N q todo seen
  proof -
    let ?A = "set (step_targets N q '''') \<union> set todo \<union> set (all_targets N) - insert q (set seen)"
    let ?B = "insert q (set todo \<union> set (all_targets N)) - set seen"
    have "?A \<subset> ?B"
      using prems step_targets_subset [of N q "''''"] by auto
    then have "card ?A < card ?B"
      by (intro psubset_card_mono) auto
    then show ?thesis by simp
  qed
  done

text \<open>The name of a set of NFA states: its members in increasing order.\<close>

definition epsilon_closure :: "nfa \<Rightarrow> nat list \<Rightarrow> dstate" where
  "epsilon_closure N S = sort (closure_loop N S [])"

subsection \<open>Subset construction, breadth first\<close>

definition dfa_step :: "nfa \<Rightarrow> dstate \<Rightarrow> symbol \<Rightarrow> dstate" where
  "dfa_step N S a = epsilon_closure N (concat (map (\<lambda>q. step_targets N q a) S))"

lemma closure_loop_subset:
  "set (closure_loop N todo seen) \<subseteq> set todo \<union> set seen \<union> set (all_targets N)"
proof (induction N todo seen rule: closure_loop.induct)
  case (1 N seen)
  show ?case by simp
next
  case (2 N q todo seen)
  then show ?case
    using step_targets_subset [of N q "''''"] by (auto split: if_splits)
qed

lemma closure_loop_distinct: "distinct seen \<Longrightarrow> distinct (closure_loop N todo seen)"
  by (induction N todo seen rule: closure_loop.induct) auto

lemma dfa_step_universe:
  "set (dfa_step N S a) \<subseteq> set (all_targets N) \<and> distinct (dfa_step N S a)"
proof -
  have "set (concat (map (\<lambda>q. step_targets N q a) S)) \<subseteq> set (all_targets N)"
    using step_targets_subset [of N _ a] by auto
  moreover have "distinct (closure_loop N (concat (map (\<lambda>q. step_targets N q a) S)) [])"
    by (rule closure_loop_distinct) simp
  moreover have "set (closure_loop N (concat (map (\<lambda>q. step_targets N q a) S)) [])
                   \<subseteq> set (concat (map (\<lambda>q. step_targets N q a) S)) \<union> set (all_targets N)"
    using closure_loop_subset [of N "concat (map (\<lambda>q. step_targets N q a) S)" "[]"]
    by simp
  ultimately have "set (closure_loop N (concat (map (\<lambda>q. step_targets N q a) S)) [])
                   \<subseteq> set (all_targets N)"
    and "distinct (closure_loop N (concat (map (\<lambda>q. step_targets N q a) S)) [])"
    by blast+
  then show ?thesis
    unfolding dfa_step_def epsilon_closure_def by simp
qed

definition dfa_universe :: "nfa \<Rightarrow> dstate set" where
  "dfa_universe N = {xs. set xs \<subseteq> set (all_targets N) \<and> distinct xs}"

lemma finite_dfa_universe: "finite (dfa_universe N)"
  unfolding dfa_universe_def by (rule finite_subset_distinct) simp

lemma dfa_step_in_universe: "dfa_step N S a \<in> dfa_universe N"
  using dfa_step_universe [of N S a] by (simp add: dfa_universe_def)

function explore :: "nfa \<Rightarrow> dstate list \<Rightarrow> dstate list \<Rightarrow> dstate list" where
  "explore N [] seen = seen"
| "explore N (S # todo) seen =
     (if S \<in> set seen then explore N todo seen
      else explore N (todo @ map (dfa_step N S) (input_symbols N)) (seen @ [S]))"
  by pat_completeness auto
termination
  apply (relation "inv_image (less_than <*lex*> less_than)
         (\<lambda>(N, todo, seen). (card ((set todo \<union> dfa_universe N) - set seen), length todo))")
    apply (intro wf_inv_image wf_lex_prod wf_less_than)
  subgoal premises prems for N S todo seen
  proof -
    have "(set todo \<union> dfa_universe N) - set seen = (set (S # todo) \<union> dfa_universe N) - set seen"
      using prems by auto
    then show ?thesis by simp
  qed
  subgoal premises prems for N S todo seen
  proof -
    let ?A = "(set (todo @ map (dfa_step N S) (input_symbols N)) \<union> dfa_universe N) - set (seen @ [S])"
    let ?B = "(set (S # todo) \<union> dfa_universe N) - set seen"
    have "?A \<subset> ?B"
      using prems dfa_step_in_universe [of N S] by auto
    moreover have "finite ?B" using finite_dfa_universe [of N] by simp
    ultimately have "card ?A < card ?B" by (rule psubset_card_mono [rotated])
    then show ?thesis by simp
  qed
  done

definition DFA_from_nfa :: "nfa \<Rightarrow> dfa" where
  "DFA_from_nfa N =
     (let start = epsilon_closure N [initial_state N];
          found = explore N [start] []
      in \<lparr>dfa_states = found,
          dfa_input_symbols = input_symbols N,
          dfa_transitions =
            map (\<lambda>S. (S, map (\<lambda>a. (a, dfa_step N S a)) (input_symbols N))) found,
          dfa_initial_state = start,
          dfa_final_states = filter (\<lambda>S. \<exists>q \<in> set S. q \<in> final_states N) found\<rparr>)"

subsection \<open>Minimisation by partition refinement\<close>

text \<open>
  A partition is a list of blocks. \<open>signature\<close> says, for each symbol, in which block
  the successor of a state lies; \<open>group_by\<close> splits a block into the groups of equal
  signature, in the order in which the signatures first occur.
\<close>

definition block_of :: "dstate list list \<Rightarrow> dstate \<Rightarrow> dstate list option" where
  "block_of P q = find (\<lambda>B. q \<in> set B) P"

definition signature :: "pdfa \<Rightarrow> dstate list list \<Rightarrow> dstate \<Rightarrow> dstate list option option list" where
  "signature A P q =
     map (\<lambda>a. case pdfa_delta A q a of None \<Rightarrow> None | Some q' \<Rightarrow> Some (block_of P q'))
         (pdfa_alphabet A)"

fun group_by :: "('a \<Rightarrow> 'b) \<Rightarrow> 'a list \<Rightarrow> 'a list list" where
  "group_by f [] = []"
| "group_by f (x # xs) =
     (x # filter (\<lambda>y. f y = f x) xs) # group_by f (filter (\<lambda>y. f y \<noteq> f x) xs)"

definition refine :: "pdfa \<Rightarrow> dstate list list \<Rightarrow> dstate list list" where
  "refine A P = concat (map (group_by (signature A P)) P)"

definition splittable :: "pdfa \<Rightarrow> dstate list list \<Rightarrow> bool" where
  "splittable A P = list_ex (\<lambda>B. 1 < length (group_by (signature A P) B)) P"

lemma group_by_nonempty: "B \<in> set (group_by f xs) \<Longrightarrow> B \<noteq> []"
  by (induction f xs rule: group_by.induct) auto

lemma length_concat_group_by: "length (concat (group_by f xs)) = length xs"
proof (induction f xs rule: group_by.induct)
  case (1 f)
  show ?case by simp
next
  case (2 f x xs)
  have "length (filter (\<lambda>y. f y = f x) xs) + length (filter (\<lambda>y. f y \<noteq> f x) xs) = length xs"
    using sum_length_filter_compl [of "\<lambda>y. f y = f x" xs] by simp
  with 2 show ?case by simp
qed

lemma group_by_Nil_iff: "group_by f xs = [] \<longleftrightarrow> xs = []"
  by (cases xs) auto

lemma length_concat_le:
  "(\<And>B. B \<in> set P \<Longrightarrow> B \<noteq> []) \<Longrightarrow> length P \<le> length (concat P)"
proof (induction P)
  case Nil
  show ?case by simp
next
  case (Cons B P)
  have "B \<noteq> []" using Cons.prems by simp
  then have "1 \<le> length B" by (cases B) auto
  moreover have "length P \<le> length (concat P)" using Cons by simp
  ultimately show ?case by simp
qed

lemma refine_blocks_nonempty: "B \<in> set (refine A P) \<Longrightarrow> B \<noteq> []"
  by (auto simp: refine_def dest: group_by_nonempty)

lemma length_concat_refine: "length (concat (refine A P)) = length (concat P)"
proof -
  have "length (concat (concat (map (group_by f) P))) = length (concat P)" for f :: "dstate \<Rightarrow> 'b"
    by (induction P) (auto simp: length_concat_group_by)
  then show ?thesis by (simp add: refine_def)
qed

lemma length_refine_ge:
  "length (filter (\<lambda>B. B \<noteq> []) P) \<le> length (concat (map (group_by f) P))"
proof (induction P)
  case Nil
  show ?case by simp
next
  case (Cons B P)
  have "B \<noteq> [] \<Longrightarrow> 1 \<le> length (group_by f B)"
    by (cases B) auto
  with Cons show ?case by auto
qed

lemma length_refine_gt:
  "list_ex (\<lambda>B. 1 < length (group_by f B)) P \<Longrightarrow>
     length (filter (\<lambda>B. B \<noteq> []) P) < length (concat (map (group_by f) P))"
proof (induction P)
  case Nil
  then show ?case by simp
next
  case (Cons B P)
  have one: "B \<noteq> [] \<Longrightarrow> 1 \<le> length (group_by f B)"
    by (cases B) auto
  show ?case
  proof (cases "1 < length (group_by f B)")
    case True
    with length_refine_ge [of P f] show ?thesis by auto
  next
    case False
    with Cons.prems have "list_ex (\<lambda>B. 1 < length (group_by f B)) P" by simp
    from Cons.IH [OF this] one show ?thesis by auto
  qed
qed

function moore :: "pdfa \<Rightarrow> dstate list list \<Rightarrow> dstate list list" where
  "moore A P = (if splittable A P then moore A (refine A P) else P)"
  by pat_completeness auto
termination
proof (relation "measure (\<lambda>(A, P). length (concat P) - length (filter (\<lambda>B. B \<noteq> []) P))",
       goal_cases)
  case 1
  show ?case by simp
next
  case (2 A P)
  have a: "length (filter (\<lambda>B. B \<noteq> []) P) < length (refine A P)"
    using 2 length_refine_gt [of "signature A P" P] by (simp add: refine_def splittable_def)
  have "filter (\<lambda>B. B \<noteq> []) (refine A P) = refine A P"
    using refine_blocks_nonempty [of _ A P] by (simp add: filter_id_conv)
  moreover have "length (refine A P) \<le> length (concat (refine A P))"
    using refine_blocks_nonempty [of _ A P] by (rule length_concat_le)
  ultimately show ?case
    using a length_concat_refine [of A P] by simp
qed

declare moore.simps [simp del]

definition representative :: "dstate list list \<Rightarrow> dstate \<Rightarrow> dstate" where
  "representative P q = (case block_of P q of None \<Rightarrow> q | Some B \<Rightarrow> hd B)"

definition pDFA_minimize :: "pdfa \<Rightarrow> pdfa" where
  "pDFA_minimize A =
     (let accepting = filter (\<lambda>q. q \<in> set (pdfa_accepts A)) (pdfa_states A);
          rejecting = filter (\<lambda>q. q \<notin> set (pdfa_accepts A)) (pdfa_states A);
          P = moore A (filter (\<lambda>B. B \<noteq> []) [accepting, rejecting])
      in \<lparr>pdfa_states = map hd P,
          pdfa_alphabet = pdfa_alphabet A,
          pdfa_delta = (\<lambda>q a. map_option (representative P) (pdfa_delta A q a)),
          pdfa_start = representative P (pdfa_start A),
          pdfa_accepts = filter (\<lambda>q. q \<in> set (pdfa_accepts A)) (map hd P)\<rparr>)"

subsection \<open>The libraries plugged in\<close>

definition dfa_from_group :: "node \<Rightarrow> error + dfa_out" where
  "dfa_from_group t = fst (run_dfa_from_group DFA_from_nfa pDFA_minimize t (group_of t))"

subsection \<open>Acceptance\<close>

definition eps_rel :: "nfa \<Rightarrow> (nat \<times> nat) set" where
  "eps_rel N = {(q, q'). q' \<in> set (step_targets N q '''')}"

definition nfa_closure :: "nfa \<Rightarrow> nat set \<Rightarrow> nat set" where
  "nfa_closure N S = (eps_rel N)\<^sup>* `` S"

definition nfa_step :: "nfa \<Rightarrow> nat set \<Rightarrow> symbol \<Rightarrow> nat set" where
  "nfa_step N S a = nfa_closure N (\<Union>q \<in> S. set (step_targets N q a))"

definition nfa_accepts :: "nfa \<Rightarrow> symbol list \<Rightarrow> bool" where
  "nfa_accepts N w =
     (foldl (nfa_step N) (nfa_closure N {initial_state N}) w \<inter> final_states N \<noteq> {})"

fun pdfa_run :: "pdfa \<Rightarrow> dstate \<Rightarrow> symbol list \<Rightarrow> dstate option" where
  "pdfa_run A q [] = Some q"
| "pdfa_run A q (a # w) =
     (case pdfa_delta A q a of None \<Rightarrow> None | Some q' \<Rightarrow> pdfa_run A q' w)"

definition pdfa_accepts_word :: "pdfa \<Rightarrow> symbol list \<Rightarrow> bool" where
  "pdfa_accepts_word A w =
     (case pdfa_run A (pdfa_start A) w of None \<Rightarrow> False | Some q \<Rightarrow> q \<in> set (pdfa_accepts A))"

lemmas automata_defs =
  DFA_from_nfa_def pDFA_minimize_def pdfa_of_def epsilon_closure_def dfa_step_def
  step_targets_def block_of_def signature_def refine_def splittable_def representative_def
  emit_def state_map_of_def dict_of_def getitem_def trap_def

section \<open>The scenarios without an epsilon transition\<close>

lemmas builder_defs =
  init_ctx_def new_state_def add_transition_def patch_def resolve_def nfa_from_element_def
  wrap_occurs_def group_of_def

text \<open>
  C1. For the sequence of the elements \<open>A\<close> and \<open>B\<close>, all three nodes with the
  occurrence \<open>(1, 1)\<close>, the specification expects the record with the states
  \<open>{0, 1, 2}\<close>. The code does not return: no transition on \<^verbatim>\<open>""\<close> was ever added,
  and \<^verbatim>\<open>input_symbols.remove("")\<close> (line 140) raises \<^verbatim>\<open>KeyError\<close>, whatever the two
  libraries do.
\<close>

theorem sequence_AB_raises_KeyError:
  "fst (run_dfa_from_group from_nfa minimize
          (XsdGroup ''sequence''
             [XsdElement ''A'' (1, Some 1), XsdElement ''B'' (1, Some 1)] (1, Some 1))
          (group_of (XsdGroup ''sequence''
             [XsdElement ''A'' (1, Some 1), XsdElement ''B'' (1, Some 1)] (1, Some 1))))
   = Inl KeyError"
  by (simp add: run_dfa_from_group_def build_nfa_def finalize_def all_symbols_def builder_defs)

text \<open>
  C2. The finalisation is expected to compute the alphabet and to succeed also when no
  epsilon transition was created. For the single element \<open>A\<close> with the occurrence
  \<open>(1, 1)\<close> the builder returns the fragment \<open>(q0, {q0})\<close> with the one transition
  on \<open>A\<close>, the vacant state is patched to the accepting state \<open>q1\<close>, and line 140
  raises \<^verbatim>\<open>KeyError\<close>.
\<close>

theorem alphabet_without_epsilon_raises:
  "fst (nfa_from_node [] (XsdElement ''A'' (1, Some 1)) (init_ctx g)) = Inr (0, [0]) \<and>
   nfa_state_transitions (snd (nfa_from_node [] (XsdElement ''A'' (1, Some 1)) (init_ctx g)))
     = [(0, [(''A'', {None})])] \<and>
   fst (finalize (XsdElement ''A'' (1, Some 1)) (init_ctx g)) = Inr (0, 1) \<and>
   fst (build_nfa (XsdElement ''A'' (1, Some 1)) (init_ctx g)) = Inl KeyError"
  by (simp add: build_nfa_def finalize_def all_symbols_def builder_defs)

section \<open>What the primitives do to the table\<close>

definition keys :: "ctx \<Rightarrow> nat set" where
  "keys c = fst ` set (nfa_state_transitions c)"

definition targets :: "ctx \<Rightarrow> nat \<Rightarrow> symbol \<Rightarrow> nat option set" where
  "targets c q a =
     (case map_of (nfa_state_transitions c) q of
        None \<Rightarrow> {}
      | Some m \<Rightarrow> (case map_of m a of None \<Rightarrow> {} | Some v \<Rightarrow> v))"

definition pending :: "ctx \<Rightarrow> nat set" where
  "pending c = {q. \<exists>a. None \<in> targets c q a}"

definition dense :: "ctx \<Rightarrow> bool" where
  "dense c = (nfa_states c = {..<card (nfa_states c)})"

definition table_ok :: "ctx \<Rightarrow> bool" where
  "table_ok c =
     (distinct (map fst (nfa_state_transitions c)) \<and>
      (\<forall>m \<in> snd ` set (nfa_state_transitions c). distinct (map fst m)))"

lemma set_update_subset: "set (AList.update k v d) \<subseteq> insert (k, v) (set d)"
  by (induction d) auto

lemma keys_dom: "keys c = dom (map_of (nfa_state_transitions c))"
  by (simp add: keys_def dom_map_of_conv_image_fst)

lemma new_state_frame:
  "new_state c = (x, c') \<Longrightarrow>
     nfa_state_transitions c' = nfa_state_transitions c \<and> group c' = group c \<and>
     elements c' = elements c \<and> x = card (nfa_states c) \<and>
     nfa_states c' = insert x (nfa_states c)"
  by (auto simp: new_state_def Let_def)

lemma new_state_keys [simp]: "keys (snd (new_state c)) = keys c"
  by (simp add: new_state_def keys_def Let_def)

lemma new_state_targets [simp]: "targets (snd (new_state c)) = targets c"
  by (simp add: new_state_def targets_def Let_def fun_eq_iff)

lemma new_state_pending [simp]: "pending (snd (new_state c)) = pending c"
  by (simp add: pending_def)

lemma new_state_table_ok [simp]: "table_ok (snd (new_state c)) = table_ok c"
  by (simp add: new_state_def table_ok_def Let_def)

lemma new_state_dense: "dense c \<Longrightarrow> dense (snd (new_state c))"
proof -
  assume d: "dense c"
  let ?n = "card (nfa_states c)"
  have s: "nfa_states c = {..<?n}" using d by (simp add: dense_def)
  have "insert ?n (nfa_states c) = {..<Suc ?n}"
    by (subst s) (simp add: lessThan_Suc)
  moreover have "card (insert ?n (nfa_states c)) = Suc ?n"
    by (subst s) simp
  ultimately show ?thesis
    by (simp add: dense_def new_state_def Let_def)
qed

lemma new_state_fresh: "dense c \<Longrightarrow> fst (new_state c) \<notin> nfa_states c"
proof -
  assume d: "dense c"
  have "card (nfa_states c) \<notin> {..<card (nfa_states c)}" by simp
  with d show ?thesis by (simp add: dense_def new_state_def Let_def)
qed

lemma add_transition_frame [simp]:
  "nfa_states (add_transition q a n c) = nfa_states c"
  "group (add_transition q a n c) = group c"
  "elements (add_transition q a n c) = elements c"
  by (simp_all add: add_transition_def Let_def)

lemma add_transition_keys [simp]: "keys (add_transition q a n c) = insert q (keys c)"
  by (auto simp: add_transition_def keys_def Let_def dom_update split: option.splits)

lemma add_transition_targets:
  "targets (add_transition q a n c) q' a' =
     (if q' = q \<and> a' = a then insert n (targets c q a) else targets c q' a')"
  by (auto simp: add_transition_def targets_def Let_def update_conv' split: option.splits)

lemma add_transition_pending_Some [simp]:
  "pending (add_transition q a (Some n) c) = pending c"
  by (auto simp: pending_def add_transition_targets split: if_splits)

lemma add_transition_pending_None [simp]:
  "pending (add_transition q a None c) = insert q (pending c)"
  by (auto simp: pending_def add_transition_targets split: if_splits)

lemma table_ok_update:
  assumes "table_ok c" and "distinct (map fst m)"
  shows "table_ok (c\<lparr>nfa_state_transitions := AList.update q m (nfa_state_transitions c)\<rparr>)"
proof -
  let ?T = "nfa_state_transitions c"
  have "distinct (map fst (AList.update q m ?T))"
    using assms(1) by (simp add: table_ok_def distinct_update)
  moreover have "distinct (map fst (snd x))" if "x \<in> set (AList.update q m ?T)" for x
  proof -
    from that set_update_subset [of q m ?T] have "x = (q, m) \<or> x \<in> set ?T" by blast
    with assms show ?thesis by (auto simp: table_ok_def)
  qed
  ultimately show ?thesis by (simp add: table_ok_def)
qed

lemma table_ok_row:
  "table_ok c \<Longrightarrow> map_of (nfa_state_transitions c) q = Some m \<Longrightarrow> distinct (map fst m)"
  by (force simp: table_ok_def dest: map_of_SomeD)

lemma add_transition_table_ok: "table_ok c \<Longrightarrow> table_ok (add_transition q a n c)"
  by (auto simp: add_transition_def Let_def distinct_update
           intro!: table_ok_update dest: table_ok_row split: option.splits)

lemma map_fst_map_snd: "map fst (map (\<lambda>(k, v). (k, f v)) m) = map fst m"
  by (induction m) auto

lemma patch_table_ok:
  assumes "patch q n c = (r, c')" and "table_ok c"
  shows "table_ok c'"
proof (cases "map_of (nfa_state_transitions c) q")
  case None
  with assms show ?thesis by (simp add: patch_def Let_def)
next
  case (Some m)
  have "distinct (map fst (map (\<lambda>(k, v). (k, resolve n ` v)) m))"
    using table_ok_row [OF assms(2) Some] by (simp only: map_fst_map_snd)
  from table_ok_update [OF assms(2) this, of q] assms(1) Some show ?thesis
    by (simp add: patch_def Let_def)
qed

lemma resolve_not_None [simp]: "None \<notin> resolve n ` X"
  by (auto simp: resolve_def split: option.splits)

lemma patch_fails: "q \<notin> keys c \<Longrightarrow> patch q n c = (Inl KeyError, c)"
  by (auto simp: patch_def keys_dom Let_def split: option.splits)

lemma patch_succeeds: "q \<in> keys c \<Longrightarrow> \<exists>c'. patch q n c = (Inr (), c')"
  by (auto simp: patch_def keys_dom Let_def split: option.splits)

lemma patch_frame:
  "patch q n c = (r, c') \<Longrightarrow>
     nfa_states c' = nfa_states c \<and> group c' = group c \<and> elements c' = elements c \<and>
     keys c' = keys c"
  by (auto simp: patch_def keys_dom Let_def update_conv' split: option.splits if_splits)

lemma patch_targets:
  "patch q n c = (Inr u, c') \<Longrightarrow>
     targets c' q' a = (if q' = q then resolve n ` targets c q a else targets c q' a)"
  by (auto simp: patch_def targets_def Let_def update_conv' map_of_map split: option.splits)

lemma patch_pending: "patch q n c = (Inr u, c') \<Longrightarrow> pending c' = pending c - {q}"
  by (auto simp: pending_def patch_targets split: if_splits)

lemma patch_all_frame:
  "patch_all vs n c = (r, c') \<Longrightarrow>
     nfa_states c' = nfa_states c \<and> group c' = group c \<and> elements c' = elements c \<and>
     keys c' = keys c"
proof (induction vs arbitrary: c)
  case Nil
  then show ?case by simp
next
  case (Cons v vs)
  obtain r1 c1 where p: "patch v n c = (r1, c1)" by (cases "patch v n c")
  show ?case
  proof (cases r1)
    case (Inl e)
    with Cons.prems p patch_frame [OF p] show ?thesis by simp
  next
    case (Inr u)
    with Cons.prems p have "patch_all vs n c1 = (r, c')" by simp
    from Cons.IH [OF this] patch_frame [OF p] show ?thesis by simp
  qed
qed

lemma patch_all_table_ok: "patch_all vs n c = (r, c') \<Longrightarrow> table_ok c \<Longrightarrow> table_ok c'"
proof (induction vs arbitrary: c)
  case Nil
  then show ?case by simp
next
  case (Cons v vs)
  obtain r1 c1 where p: "patch v n c = (r1, c1)" by (cases "patch v n c")
  have t1: "table_ok c1" using patch_table_ok [OF p] Cons.prems by simp
  show ?case
  proof (cases r1)
    case (Inl e)
    with Cons.prems p t1 show ?thesis by simp
  next
    case (Inr u)
    with Cons.prems p have "patch_all vs n c1 = (r, c')" by simp
    from Cons.IH [OF this t1] show ?thesis .
  qed
qed

lemma patch_all_succeeds_iff:
  "(\<exists>c'. patch_all vs n c = (Inr (), c')) \<longleftrightarrow> set vs \<subseteq> keys c"
proof (induction vs arbitrary: c)
  case Nil
  then show ?case by simp
next
  case (Cons v vs)
  show ?case
  proof (cases "v \<in> keys c")
    case True
    then obtain c1 where p: "patch v n c = (Inr (), c1)" using patch_succeeds by blast
    have "keys c1 = keys c" using patch_frame [OF p] by simp
    with Cons.IH [of c1] p True show ?thesis by simp
  next
    case False
    then show ?thesis by (simp add: patch_fails)
  qed
qed

lemma patch_all_pending:
  "patch_all vs n c = (Inr u, c') \<Longrightarrow> pending c' = pending c - set vs"
proof (induction vs arbitrary: c)
  case Nil
  then show ?case by simp
next
  case (Cons v vs)
  obtain r1 c1 where p: "patch v n c = (r1, c1)" by (cases "patch v n c")
  with Cons.prems obtain u1 where r1: "r1 = Inr u1" by (cases r1) auto
  with Cons.prems p have "patch_all vs n c1 = (Inr u, c')" by simp
  from Cons.IH [OF this] patch_pending [OF p [unfolded r1]] show ?case by auto
qed

lemmas build_induct =
  nfa_from_node_nfa_from_member_nfa_from_sequence_sequence_rest_choice_loop_all_loop.induct

section \<open>What a fragment leaves in the table\<close>

lemma group_update_frame [simp]:
  "keys (c\<lparr>group := g\<rparr>) = keys c"
  "targets (c\<lparr>group := g\<rparr>) = targets c"
  "pending (c\<lparr>group := g\<rparr>) = pending c"
  "dense (c\<lparr>group := g\<rparr>) = dense c"
  "table_ok (c\<lparr>group := g\<rparr>) = table_ok c"
  by (simp_all add: keys_def targets_def pending_def dense_def table_ok_def fun_eq_iff)

lemma elements_update_frame [simp]:
  "keys (c\<lparr>elements := e\<rparr>) = keys c"
  "targets (c\<lparr>elements := e\<rparr>) = targets c"
  "pending (c\<lparr>elements := e\<rparr>) = pending c"
  "dense (c\<lparr>elements := e\<rparr>) = dense c"
  "table_ok (c\<lparr>elements := e\<rparr>) = table_ok c"
  by (simp_all add: keys_def targets_def pending_def dense_def table_ok_def fun_eq_iff)

lemma add_transition_dense [simp]: "dense (add_transition q a n c) = dense c"
  by (simp add: dense_def)

definition grows :: "ctx \<Rightarrow> ctx \<Rightarrow> bool" where
  "grows c c' =
     (keys c \<subseteq> keys c' \<and> nfa_states c \<subseteq> nfa_states c' \<and>
      (dense c \<longrightarrow> dense c') \<and> (table_ok c \<longrightarrow> table_ok c'))"

lemma grows_refl [simp]: "grows c c"
  by (simp add: grows_def)

lemma grows_trans: "grows a b \<Longrightarrow> grows b c \<Longrightarrow> grows a c"
  by (auto simp: grows_def)

lemma grows_new_state: "grows c (snd (new_state c))"
proof -
  have "nfa_states c \<subseteq> nfa_states (snd (new_state c))"
    by (auto simp: new_state_def Let_def)
  then show ?thesis by (simp add: grows_def new_state_dense)
qed

lemma grows_add_transition: "grows c (add_transition q a n c)"
  by (auto simp: grows_def add_transition_table_ok)

lemma grows_patch_all: "patch_all vs n c = (r, c') \<Longrightarrow> grows c c'"
  using patch_all_frame [of vs n c r c'] patch_all_table_ok [of vs n c r c']
  by (auto simp: grows_def dense_def)

lemma grows_group [simp]: "grows c (c'\<lparr>group := g\<rparr>) = grows c c'"
  by (simp add: grows_def)

definition frag_post :: "ctx \<Rightarrow> fragment res \<Rightarrow> bool" where
  "frag_post c rc =
     (grows c (snd rc) \<and>
      (\<forall>init vac. fst rc = Inr (init, vac) \<longrightarrow>
         set vac \<subseteq> keys (snd rc) \<and> pending (snd rc) \<subseteq> pending c \<union> set vac))"

definition rest_post :: "nat list \<Rightarrow> ctx \<Rightarrow> fragment res \<Rightarrow> bool" where
  "rest_post vacant c rc =
     (grows c (snd rc) \<and>
      (\<forall>init vac. fst rc = Inr (init, vac) \<longrightarrow>
         set vac \<subseteq> keys (snd rc) \<and> pending (snd rc) \<subseteq> (pending c - set vacant) \<union> set vac))"

definition loop_post :: "nat list \<Rightarrow> ctx \<Rightarrow> fragment res \<Rightarrow> bool" where
  "loop_post vacants c rc =
     (grows c (snd rc) \<and>
      (\<forall>x vac. fst rc = Inr (x, vac) \<longrightarrow>
         set vac \<subseteq> keys (snd rc) \<and> set vacants \<subseteq> set vac \<and>
         pending (snd rc) \<subseteq> pending c \<union> set vac))"

lemma frag_post_element: "frag_post c (nfa_from_element p nm c)"
proof -
  obtain x c1 where n: "new_state c = (x, c1)" by (cases "new_state c")
  have c1: "c1 = snd (new_state c)" using n by simp
  have "grows c c1" unfolding c1 by (rule grows_new_state)
  then have "grows c (add_transition x nm None c1)"
    using grows_add_transition grows_trans by blast
  moreover have "keys c1 = keys c" "pending c1 = pending c" unfolding c1 by simp_all
  ultimately show ?thesis
    by (auto simp: frag_post_def nfa_from_element_def n grows_def)
qed

lemma frag_post_wrap:
  assumes "frag_post c rc"
  shows "frag_post c (wrap_occurs occ rc)"
proof -
  obtain r c1 where rc: "rc = (r, c1)" by (cases rc)
  show ?thesis
  proof (cases r)
    case (Inl e)
    with assms rc show ?thesis by (simp add: wrap_occurs_def frag_post_def)
  next
    case (Inr f)
    obtain init vac where f: "f = (init, vac)" by (cases f)
    from assms rc Inr f have g: "grows c c1" and v: "set vac \<subseteq> keys c1"
      and pe: "pending c1 \<subseteq> pending c \<union> set vac"
      by (auto simp: frag_post_def)
    consider "occ = (1, Some 1)" | "occ = (0, Some 1)" | "occ = (0, None)" | "occ = (1, None)"
      | "occ \<noteq> (1, Some 1)" "occ \<noteq> (0, Some 1)" "occ \<noteq> (0, None)" "occ \<noteq> (1, None)"
      by blast
    then show ?thesis
    proof cases
      case 1
      with assms rc Inr f show ?thesis by (simp add: wrap_occurs_def)
    next
      case 2
      have "grows c (add_transition init '''' None c1)"
        using g grows_add_transition grows_trans by blast
      with 2 v pe show ?thesis
        by (auto simp: wrap_occurs_def rc Inr f frag_post_def)
    next
      case 3
      obtain r2 c2 where pa: "patch_all vac init c1 = (r2, c2)"
        by (cases "patch_all vac init c1")
      have g2: "grows c c2" using g grows_patch_all [OF pa] grows_trans by blast
      show ?thesis
      proof (cases r2)
        case (Inl e)
        with 3 pa g2 show ?thesis
          by (simp add: wrap_occurs_def rc Inr f frag_post_def)
      next
        case r2: (Inr u)
        have "pending c2 = pending c1 - set vac"
          using patch_all_pending pa r2 by blast
        moreover have "grows c (add_transition init '''' None c2)"
          using g2 grows_add_transition grows_trans by blast
        ultimately show ?thesis using 3 pa r2 pe
          by (auto simp: wrap_occurs_def rc Inr f frag_post_def)
      qed
    next
      case 4
      obtain nxt c1' where n: "new_state c1 = (nxt, c1')" by (cases "new_state c1")
      have c1': "c1' = snd (new_state c1)" using n by simp
      have g1: "grows c c1'" unfolding c1' using g grows_new_state grows_trans by blast
      have k1: "keys c1' = keys c1" "pending c1' = pending c1" unfolding c1' by simp_all
      obtain r2 c2 where pa: "patch_all vac nxt c1' = (r2, c2)"
        by (cases "patch_all vac nxt c1'")
      have g2: "grows c c2" using g1 grows_patch_all [OF pa] grows_trans by blast
      show ?thesis
      proof (cases r2)
        case (Inl e)
        with 4 n pa g2 show ?thesis
          by (simp add: wrap_occurs_def rc Inr f frag_post_def)
      next
        case r2: (Inr u)
        have "pending c2 = pending c1' - set vac"
          using patch_all_pending pa r2 by blast
        moreover have
          "grows c (add_transition nxt '''' None (add_transition nxt '''' (Some init) c2))"
          using g2 grows_add_transition grows_trans by blast
        ultimately show ?thesis using 4 n pa r2 pe k1
          by (auto simp: wrap_occurs_def rc Inr f frag_post_def)
      qed
    next
      case 5
      with g show ?thesis
        by (simp add: wrap_occurs_def rc Inr f frag_post_def)
    qed
  qed
qed

lemma build_post:
  shows "frag_post c (nfa_from_node p t c)"
    and "frag_post c (nfa_from_member p cs i c)"
    and "frag_post c (nfa_from_sequence p cs c)"
    and "set vacant \<subseteq> keys c \<longrightarrow> rest_post vacant c (sequence_rest p cs js init vacant c)"
    and "set vacants \<subseteq> keys c \<longrightarrow> loop_post vacants c (choice_loop p cs js x vacants c)"
    and "set vacants \<subseteq> keys c \<longrightarrow> loop_post vacants c (all_loop p cs qs x vacants c)"
proof (induction p t c and p cs i c and p cs c and p cs js init vacant c
         and p cs js x vacants c and p cs qs x vacants c rule: build_induct)
  case (1 p nm occ c)
  show ?case by (simp add: frag_post_wrap frag_post_element)
next
  case (2 p m cs occ c)
  obtain x c1 where n: "new_state c = (x, c1)" by (cases "new_state c")
  have c1: "c1 = snd (new_state c)" using n by simp
  have g1: "grows c c1" unfolding c1 by (rule grows_new_state)
  have k1: "keys c1 = keys c" "pending c1 = pending c" unfolding c1 by simp_all
  consider "m = ''sequence''" | "m \<noteq> ''sequence''" "m = ''choice''"
    | "m \<noteq> ''sequence''" "m \<noteq> ''choice''" "m = ''all''"
    | "m \<noteq> ''sequence''" "m \<noteq> ''choice''" "m \<noteq> ''all''"
    by blast
  then show ?case
  proof cases
    case 1
    with "2.IH"(1) show ?thesis by (simp add: frag_post_wrap)
  next
    case 2
    have "loop_post [] c1 (choice_loop p cs (group c1 p) x [] c1)"
      using "2.IH"(2) [OF 2 n [symmetric]] by simp
    then have "frag_post c (choice_loop p cs (group c1 p) x [] c1)"
      using g1 k1 unfolding loop_post_def frag_post_def by (blast intro: grows_trans)
    then show ?thesis using 2 n by (simp add: frag_post_wrap)
  next
    case 3
    let ?r = "all_loop p cs (permutations (group c1 p)) x [] c1"
    have "loop_post [] c1 ?r"
      using "2.IH"(3) [OF 3 refl n [symmetric]] by simp
    then have fp: "frag_post c ?r"
      using g1 k1 unfolding loop_post_def frag_post_def by (blast intro: grows_trans)
    have "frag_post c
            (case ?r of
               (Inl e, c2) \<Rightarrow> (Inl e, c2)
             | (Inr f, c2) \<Rightarrow> (Inr f, c2\<lparr>group := (group c2)(p := group c p)\<rparr>))"
      using fp by (auto simp: frag_post_def split: prod.splits sum.splits)
    then show ?thesis using 3 n by (simp add: frag_post_wrap Let_def)
  next
    case 4
    then show ?thesis by (simp add: frag_post_def)
  qed
next
  case (3 p cs i c)
  then show ?case by (simp add: frag_post_def)
next
  case (4 p cs c)
  show ?case
  proof (cases "group c p")
    case Nil
    then show ?thesis by (simp add: frag_post_def)
  next
    case (Cons i rest)
    obtain r1 c1 where m: "nfa_from_member p cs i c = (r1, c1)"
      by (cases "nfa_from_member p cs i c")
    have f1: "frag_post c (r1, c1)" using "4.IH"(1) [OF Cons] m by simp
    show ?thesis
    proof (cases r1)
      case (Inl e)
      with Cons m f1 show ?thesis by (simp add: frag_post_def)
    next
      case (Inr f)
      obtain init vacant where f: "f = (init, vacant)" by (cases f)
      from f1 Inr f have g1: "grows c c1" and v1: "set vacant \<subseteq> keys c1"
        and p1: "pending c1 \<subseteq> pending c \<union> set vacant"
        by (auto simp: frag_post_def)
      let ?r = "sequence_rest p cs (tl (group c1 p)) init vacant c1"
      have "rest_post vacant c1 ?r"
        using "4.IH"(2) [OF Cons m [symmetric] Inr f [symmetric]] v1 by simp
      then have "frag_post c ?r"
        using g1 p1 unfolding rest_post_def frag_post_def by (blast intro: grows_trans)
      then show ?thesis using Cons m Inr f by simp
    qed
  qed
next
  case (5 p cs init vacant c)
  show ?case by (auto simp: rest_post_def)
next
  case (6 p cs i js init vacant c)
  show ?case
  proof
    assume pre: "set vacant \<subseteq> keys c"
    obtain r1 c1 where m: "nfa_from_member p cs i c = (r1, c1)"
      by (cases "nfa_from_member p cs i c")
    have f1: "frag_post c (r1, c1)" using "6.IH"(1) m by simp
    show "rest_post vacant c (sequence_rest p cs (i # js) init vacant c)"
    proof (cases r1)
      case (Inl e)
      with m f1 show ?thesis by (simp add: frag_post_def rest_post_def)
    next
      case (Inr f)
      obtain init2 vacant2 where f: "f = (init2, vacant2)" by (cases f)
      from f1 Inr f have g1: "grows c c1" and v1: "set vacant2 \<subseteq> keys c1"
        and p1: "pending c1 \<subseteq> pending c \<union> set vacant2"
        by (auto simp: frag_post_def)
      obtain r2 c2 where pa: "patch_all vacant init2 c1 = (r2, c2)"
        by (cases "patch_all vacant init2 c1")
      have g2: "grows c c2" using g1 grows_patch_all [OF pa] grows_trans by blast
      have k2: "keys c2 = keys c1" using patch_all_frame [OF pa] by simp
      show ?thesis
      proof (cases r2)
        case (Inl e)
        with m Inr f pa g2 show ?thesis by (simp add: rest_post_def)
      next
        case r2: (Inr u)
        have p2: "pending c2 = pending c1 - set vacant"
          using patch_all_pending pa r2 by blast
        let ?r = "sequence_rest p cs js init vacant2 c2"
        have "rest_post vacant2 c2 ?r"
          using "6.IH"(2) [OF m [symmetric] Inr f [symmetric] pa [symmetric] r2] v1 k2
          by simp
        then have "rest_post vacant c ?r"
          using g2 p1 p2 unfolding rest_post_def by (blast intro: grows_trans)
        then show ?thesis using m Inr f pa r2 by simp
      qed
    qed
  qed
next
  case (7 p cs x vacants c)
  show ?case by (auto simp: loop_post_def)
next
  case (8 p cs i js x vacants c)
  show ?case
  proof
    assume pre: "set vacants \<subseteq> keys c"
    obtain r1 c1 where m: "nfa_from_member p cs i c = (r1, c1)"
      by (cases "nfa_from_member p cs i c")
    have f1: "frag_post c (r1, c1)" using "8.IH"(1) m by simp
    show "loop_post vacants c (choice_loop p cs (i # js) x vacants c)"
    proof (cases r1)
      case (Inl e)
      with m f1 show ?thesis by (simp add: frag_post_def loop_post_def)
    next
      case (Inr f)
      obtain init vacant where f: "f = (init, vacant)" by (cases f)
      from f1 Inr f have g1: "grows c c1" and v1: "set vacant \<subseteq> keys c1"
        and p1: "pending c1 \<subseteq> pending c \<union> set vacant"
        by (auto simp: frag_post_def)
      let ?c2 = "add_transition x '''' (Some init) c1"
      let ?r = "choice_loop p cs js x (List.union vacants vacant) ?c2"
      have g2: "grows c ?c2" using g1 grows_add_transition grows_trans by blast
      have "set (List.union vacants vacant) \<subseteq> keys ?c2"
        using pre v1 g1 by (auto simp: grows_def)
      then have "loop_post (List.union vacants vacant) ?c2 ?r"
        using "8.IH"(2) [OF m [symmetric] Inr f [symmetric]] by simp
      moreover have "pending ?c2 = pending c1" by simp
      ultimately have "loop_post vacants c ?r"
        using g2 p1 unfolding loop_post_def set_union by (blast intro: grows_trans)
      then show ?thesis using m Inr f by simp
    qed
  qed
next
  case (9 p cs x vacants c)
  show ?case by (auto simp: loop_post_def)
next
  case (10 p cs q qs x vacants c)
  show ?case
  proof
    assume pre: "set vacants \<subseteq> keys c"
    let ?c0 = "c\<lparr>group := (group c)(p := q)\<rparr>"
    obtain r1 c1 where m: "nfa_from_sequence p cs ?c0 = (r1, c1)"
      by (cases "nfa_from_sequence p cs ?c0")
    have "frag_post ?c0 (r1, c1)" using "10.IH"(1) m by simp
    then have f1: "frag_post c (r1, c1)" by (simp add: frag_post_def grows_def)
    show "loop_post vacants c (all_loop p cs (q # qs) x vacants c)"
    proof (cases r1)
      case (Inl e)
      with m f1 show ?thesis by (simp add: frag_post_def loop_post_def)
    next
      case (Inr f)
      obtain init vacant where f: "f = (init, vacant)" by (cases f)
      from f1 Inr f have g1: "grows c c1" and v1: "set vacant \<subseteq> keys c1"
        and p1: "pending c1 \<subseteq> pending c \<union> set vacant"
        by (auto simp: frag_post_def)
      let ?c2 = "add_transition x '''' (Some init) c1"
      let ?r = "all_loop p cs qs x (List.union vacants vacant) ?c2"
      have g2: "grows c ?c2" using g1 grows_add_transition grows_trans by blast
      have "set (List.union vacants vacant) \<subseteq> keys ?c2"
        using pre v1 g1 by (auto simp: grows_def)
      then have "loop_post (List.union vacants vacant) ?c2 ?r"
        using "10.IH"(2) [OF m [symmetric] Inr f [symmetric]] by simp
      moreover have "pending ?c2 = pending c1" by simp
      ultimately have "loop_post vacants c ?r"
        using g2 p1 unfolding loop_post_def set_union by (blast intro: grows_trans)
      then show ?thesis using m Inr f by simp
    qed
  qed
qed

section \<open>Facts about the renaming\<close>

lemma set_fold_update:
  "set (fold (\<lambda>(k, v) d. AList.update k v d) kvs d) \<subseteq> set kvs \<union> set d"
proof (induction kvs arbitrary: d)
  case Nil
  then show ?case by simp
next
  case (Cons a kvs)
  obtain k v where a: "a = (k, v)" by (cases a)
  have "set (fold (\<lambda>(k, v) d. AList.update k v d) kvs (AList.update k v d))
          \<subseteq> set kvs \<union> set (AList.update k v d)"
    by (rule Cons.IH)
  with set_update_subset [of k v d] show ?case
    by (auto simp: a)
qed

lemma set_dict_of: "set (dict_of kvs) \<subseteq> set kvs"
  using set_fold_update [of kvs "[]"] by (simp add: dict_of_def)

lemma map_of_fold_update:
  "map_of (fold (\<lambda>(k, v) d. AList.update k v d) kvs d) = map_of d ++ map_of (rev kvs)"
  by (induction kvs arbitrary: d) (auto simp: update_conv' map_add_def fun_eq_iff split: option.splits)

lemma map_of_dict_of: "map_of (dict_of kvs) = map_of (rev kvs)"
  by (simp add: dict_of_def map_of_fold_update)

lemma dom_state_map: "dom (map_of (state_map_of P)) = set (pdfa_states P)"
proof -
  have "fst ` set (map (\<lambda>(v, k). (k, v)) (enumerate 0 (pdfa_states P))) = set (pdfa_states P)"
    by (force simp: enumerate_eq_zip in_set_zip in_set_conv_nth image_iff)
  then show ?thesis
    by (simp add: state_map_of_def map_of_dict_of dom_map_of_conv_image_fst)
qed

lemma getitem_state_map:
  "getitem (state_map_of P) q = Inr n \<Longrightarrow> q \<in> set (pdfa_states P)"
  using dom_state_map [of P] by (auto simp: getitem_def split: option.splits)

lemma traverse_set:
  "traverse f xs = Inr ys \<Longrightarrow> set ys = {y. \<exists>x \<in> set xs. f x = Inr y}"
proof (induction xs arbitrary: ys)
  case Nil
  then show ?case by simp
next
  case (Cons x xs)
  then show ?case
    by (auto split: sum.splits)
qed

lemma traverse_mem:
  "traverse f xs = Inr ys \<Longrightarrow> y \<in> set ys \<Longrightarrow> \<exists>x \<in> set xs. f x = Inr y"
  by (simp add: traverse_set)

lemma out_row_targets:
  "out_row P sm q ks = Inr r \<Longrightarrow> (k, n) \<in> set r \<Longrightarrow>
     \<exists>q'. pdfa_delta P q k = Some q' \<and> q' \<noteq> trap \<and> getitem sm q' = Inr n \<and> k \<in> set ks"
proof (induction ks arbitrary: r)
  case Nil
  then show ?case by simp
next
  case (Cons a ks)
  then show ?case
    by (fastforce split: option.splits sum.splits if_splits)
qed

section \<open>No pending target survives the finalisation\<close>

lemma init_ctx_facts [simp]:
  "keys (init_ctx g) = {}" "pending (init_ctx g) = {}" "dense (init_ctx g)"
  "table_ok (init_ctx g)"
  by (simp_all add: init_ctx_def keys_def pending_def targets_def dense_def table_ok_def)

lemma no_pending_entries:
  assumes "table_ok c" and "pending c = {}"
    and "(q, row) \<in> set (nfa_state_transitions c)" and "(a, tg) \<in> set row"
  shows "None \<notin> tg"
proof
  assume n: "None \<in> tg"
  have "map_of (nfa_state_transitions c) q = Some row"
    using assms(1,3) by (simp add: table_ok_def)
  moreover have "distinct (map fst row)"
    using assms(1,3) by (force simp: table_ok_def)
  then have "map_of row a = Some tg" using assms(4) by simp
  ultimately have "targets c q a = tg" by (simp add: targets_def)
  with n have "q \<in> pending c" by (auto simp: pending_def)
  with assms(2) show False by simp
qed

lemma empty_row_frame:
  "keys (c\<lparr>nfa_state_transitions := AList.update q [] (nfa_state_transitions c)\<rparr>)
     = insert q (keys c)"
  "pending (c\<lparr>nfa_state_transitions := AList.update q [] (nfa_state_transitions c)\<rparr>)
     \<subseteq> pending c"
  "table_ok c \<Longrightarrow>
     table_ok (c\<lparr>nfa_state_transitions := AList.update q [] (nfa_state_transitions c)\<rparr>)"
proof -
  let ?c' = "c\<lparr>nfa_state_transitions := AList.update q [] (nfa_state_transitions c)\<rparr>"
  show "keys ?c' = insert q (keys c)"
    by (auto simp: keys_def dom_update)
  have "targets ?c' q' a = (if q' = q then {} else targets c q' a)" for q' a
    by (simp add: targets_def update_conv')
  then show "pending ?c' \<subseteq> pending c"
    by (auto simp: pending_def split: if_splits)
  show "table_ok c \<Longrightarrow> table_ok ?c'"
    by (rule table_ok_update) simp_all
qed

text \<open>
  C4. When the builder accepts the tree, the finalisation of lines 131 to 135
  succeeds, and afterwards no target set of the transition table holds \<open>None\<close>.
\<close>

theorem finalize_leaves_no_pending:
  assumes "fst (nfa_from_node [] t (init_ctx g)) = Inr (init, finals)"
  shows "(\<exists>final. fst (finalize t (init_ctx g)) = Inr (init, final)) \<and>
         (\<forall>(q, row) \<in> set (nfa_state_transitions (snd (finalize t (init_ctx g)))).
            \<forall>(a, tg) \<in> set row. None \<notin> tg)"
proof -
  obtain c1 where b: "nfa_from_node [] t (init_ctx g) = (Inr (init, finals), c1)"
    using assms by (cases "nfa_from_node [] t (init_ctx g)") simp
  have "frag_post (init_ctx g) (nfa_from_node [] t (init_ctx g))"
    by (rule build_post(1))
  then have v: "set finals \<subseteq> keys c1" and pe: "pending c1 \<subseteq> set finals"
    and tk: "table_ok c1"
    using b by (auto simp: frag_post_def grows_def)
  obtain final c2 where n: "new_state c1 = (final, c2)" by (cases "new_state c1")
  have c2: "c2 = snd (new_state c1)" using n by simp
  let ?c3 = "c2\<lparr>nfa_state_transitions := AList.update final [] (nfa_state_transitions c2)\<rparr>"
  have k3: "set finals \<subseteq> keys ?c3" and p3: "pending ?c3 \<subseteq> set finals"
    and t3: "table_ok ?c3"
    using v pe tk empty_row_frame [where c = c2 and q = final] unfolding c2 by auto
  obtain c4 where pa: "patch_all finals final ?c3 = (Inr (), c4)"
    using k3 patch_all_succeeds_iff by blast
  have "pending c4 = {}" using patch_all_pending [OF pa] p3 by auto
  moreover have "table_ok c4" using patch_all_table_ok [OF pa t3] .
  moreover have f: "finalize t (init_ctx g) = (Inr (init, final), c4)"
    by (simp add: finalize_def b n pa)
  ultimately show ?thesis
    by (auto dest: no_pending_entries)
qed

theorem finalize_leaves_no_pending_witness:
  "fst (finalize (XsdElement ''A'' (0, None)) (init_ctx (group_of (XsdElement ''A'' (0, None)))))
     = Inr (0, 1) \<and>
   nfa_state_transitions
     (snd (finalize (XsdElement ''A'' (0, None)) (init_ctx (group_of (XsdElement ''A'' (0, None))))))
     = [(0, [(''A'', {Some 0}), ('''', {Some 1})]), (1, [])]"
  using finalize_leaves_no_pending
    [of "XsdElement ''A'' (0, None)" "group_of (XsdElement ''A'' (0, None))" 0 "[0]"]
  by (simp add: finalize_def builder_defs)

section \<open>State names are fresh\<close>

lemma build_dense: "dense c \<Longrightarrow> dense (snd (nfa_from_node p t c))"
  using build_post(1) [of c p t] by (simp add: frag_post_def grows_def)

lemma patch_dense: "dense c \<Longrightarrow> dense (snd (patch q n c))"
  using patch_frame [of q n c "fst (patch q n c)" "snd (patch q n c)"]
  by (simp add: dense_def)

lemma build_states_mono: "nfa_states c \<subseteq> nfa_states (snd (nfa_from_node p t c))"
  using build_post(1) [of c p t] by (simp add: frag_post_def grows_def)

lemma patch_states: "nfa_states (snd (patch q n c)) = nfa_states c"
  using patch_frame [of q n c "fst (patch q n c)" "snd (patch q n c)"] by simp

lemma new_state_enters:
  "nfa_states (snd (new_state c)) = insert (fst (new_state c)) (nfa_states c)"
  by (simp add: new_state_def Let_def)

lemma new_state_name: "fst (new_state c) = card (nfa_states c)"
  by (simp add: new_state_def Let_def)

lemma later_name_differs:
  assumes "dense c'" and "nfa_states (snd (new_state c)) \<subseteq> nfa_states c'"
  shows "fst (new_state c') \<noteq> fst (new_state c)"
proof
  assume e: "fst (new_state c') = fst (new_state c)"
  have "fst (new_state c) \<in> nfa_states c'" using assms(2) new_state_enters [of c] by blast
  with e new_state_fresh [OF assms(1)] show False by simp
qed

text \<open>
  C10. The state set is always \<open>{q0, ..., q(n-1)}\<close> for its size \<open>n\<close> (\<open>dense\<close>): this
  holds for the empty context and every operation of the builder keeps it. Under it
  \<^verbatim>\<open>_new_state\<close> returns a name that is not in the set and puts it into the set; no
  operation of the builder takes a state out again (\<^verbatim>\<open>_remove_state\<close> is never
  called), so every later call of \<^verbatim>\<open>_new_state\<close> returns another name: the names
  handed out during one build are pairwise distinct.
\<close>

theorem new_state_is_fresh:
  "dense (init_ctx g) \<and>
   (dense c \<longrightarrow>
      fst (new_state c) \<notin> nfa_states c \<and>
      nfa_states (snd (new_state c)) = insert (fst (new_state c)) (nfa_states c) \<and>
      dense (snd (new_state c)) \<and>
      dense (add_transition q a n c) \<and> nfa_states (add_transition q a n c) = nfa_states c \<and>
      dense (snd (patch q m c)) \<and> nfa_states (snd (patch q m c)) = nfa_states c \<and>
      dense (snd (nfa_from_node p t c)) \<and>
      nfa_states c \<subseteq> nfa_states (snd (nfa_from_node p t c)) \<and>
      (dense c' \<and> nfa_states (snd (new_state c)) \<subseteq> nfa_states c' \<longrightarrow>
         fst (new_state c') \<noteq> fst (new_state c)))"
  using later_name_differs [of c' c]
  by (simp add: new_state_fresh new_state_dense patch_dense build_dense build_states_mono
        patch_states new_state_enters)

theorem new_state_is_fresh_witness:
  "dense (snd (new_state (init_ctx (group_of (XsdElement ''A'' (1, Some 1)))))) \<and>
   nfa_states (snd (new_state (init_ctx (group_of (XsdElement ''A'' (1, Some 1)))))) = {0} \<and>
   fst (new_state (snd (new_state (init_ctx (group_of (XsdElement ''A'' (1, Some 1))))))) = 1 \<and>
   (1::nat) \<notin> {0} \<and>
   nfa_states (snd (new_state (snd (new_state (init_ctx (group_of (XsdElement ''A'' (1, Some 1)))))))) = {1, 0} \<and>
   nfa_states
     (snd (nfa_from_node [] (XsdElement ''A'' (1, Some 1))
        (snd (new_state (init_ctx (group_of (XsdElement ''A'' (1, Some 1)))))))) = {1, 0} \<and>
   fst (new_state
     (snd (nfa_from_node [] (XsdElement ''A'' (1, Some 1))
        (snd (new_state (init_ctx (group_of (XsdElement ''A'' (1, Some 1))))))))) = 2 \<and>
   (2::nat) \<noteq> 1"
proof -
  let ?t = "XsdElement ''A'' (1, Some 1)"
  let ?c = "snd (new_state (init_ctx (group_of ?t)))"
  let ?c' = "snd (nfa_from_node [] ?t ?c)"
  have s: "nfa_states ?c = {0}" by (simp add: new_state_enters new_state_name init_ctx_def)
  have d: "dense ?c" by (simp add: new_state_dense)
  have n1: "fst (new_state ?c) = 1"
    by (simp add: new_state_enters new_state_name init_ctx_def)
  have s1: "nfa_states (snd (new_state ?c)) = {1, 0}"
    by (simp add: new_state_enters new_state_name init_ctx_def)
  have "nfa_states ?c' = nfa_states (snd (new_state ?c))"
    by (simp add: nfa_from_element_def wrap_occurs_def case_prod_beta)
  with s1 have s': "nfa_states ?c' = {1, 0}" by simp
  have n2: "fst (new_state ?c') = 2" by (simp only: new_state_name s') simp
  have d': "dense ?c'" using d by (rule build_dense)
  from new_state_is_fresh [of "group_of ?t" ?c _ _ _ _ "[]" ?t ?c'] d d' s s1 s' n1 n2
  show ?thesis by simp
qed


section \<open>What a fragment leaves of the rows that were there before\<close>

text \<open>
  A context is well formed when its state set is \<open>{q0, ..., q(n-1)}\<close> and every row of
  the table belongs to a state. \<open>frame S c c'\<close>: a state of \<open>S\<close> with no pending target
  in \<open>c\<close> has the same targets in \<open>c'\<close>.
\<close>

definition wfc :: "ctx \<Rightarrow> bool" where
  "wfc c = (dense c \<and> keys c \<subseteq> nfa_states c)"

definition frame :: "nat set \<Rightarrow> ctx \<Rightarrow> ctx \<Rightarrow> bool" where
  "frame S c c' = (\<forall>q \<in> S. q \<notin> pending c \<longrightarrow> targets c' q = targets c q)"

definition extends :: "nat set \<Rightarrow> ctx \<Rightarrow> ctx \<Rightarrow> bool" where
  "extends S c c' = (wfc c' \<and> nfa_states c \<subseteq> nfa_states c' \<and> frame S c c')"

lemma wfc_init [simp]: "wfc (init_ctx g)"
  by (simp add: wfc_def)

lemma wfc_group [simp]: "wfc (c\<lparr>group := g\<rparr>) = wfc c"
  by (simp add: wfc_def)

lemma wfc_elements [simp]: "wfc (c\<lparr>elements := e\<rparr>) = wfc c"
  by (simp add: wfc_def)






lemma extends_group [simp]:
  "extends S c (c'\<lparr>group := g\<rparr>) = extends S c c'"
  "extends S (c\<lparr>group := g\<rparr>) c' = extends S c c'"
  by (simp_all add: extends_def frame_def)

lemma extends_elements [simp]:
  "extends S c (c'\<lparr>elements := e\<rparr>) = extends S c c'"
  by (simp add: extends_def frame_def)















section \<open>The fragment of an \<^verbatim>\<open>all\<close> group (lines 83 to 93)\<close>





lemma permutations_of_three:
  "permutations [0, 1, 2 :: nat] =
     [[0, 1, 2], [0, 2, 1], [1, 0, 2], [1, 2, 0], [2, 0, 1], [2, 1, 0]]"
  by code_simp












section \<open>Which trees the builder accepts, and what it does to \<^verbatim>\<open>_group\<close>\<close>

definition supported :: "nat \<times> nat option \<Rightarrow> bool" where
  "supported occ = (occ = (1, Some 1) \<or> occ = (0, Some 1) \<or> occ = (0, None) \<or> occ = (1, None))"

text \<open>
  \<open>buildable g p t\<close>: the tree \<open>t\<close> at the path \<open>p\<close> raises nothing under the store
  \<open>g\<close>. It reads the store as the builder does.
\<close>

function buildable :: "(path \<Rightarrow> nat list) \<Rightarrow> path \<Rightarrow> node \<Rightarrow> bool" where
  "buildable g p (XsdElement nm occ) = supported occ"
| "buildable g p (XsdGroup m cs occ) =
     (supported occ \<and> (m = ''sequence'' \<or> m = ''choice'' \<or> m = ''all'') \<and>
      (m = ''choice'' \<or> g p \<noteq> []) \<and>
      list_all (\<lambda>i. if i < length cs then buildable g (p @ [i]) (cs ! i) else False) (g p))"
  by pat_completeness auto
termination
  by (relation "measure (\<lambda>(g, p, t). size t)") (auto simp: size_nth_less less_Suc_eq)

definition members_ok :: "(path \<Rightarrow> nat list) \<Rightarrow> path \<Rightarrow> node list \<Rightarrow> nat list \<Rightarrow> bool" where
  "members_ok g p cs js = list_all (\<lambda>i. i < length cs \<and> buildable g (p @ [i]) (cs ! i)) js"

lemma members_ok_simps [simp]:
  "members_ok g p cs [] = True"
  "members_ok g p cs (i # js) =
     (i < length cs \<and> buildable g (p @ [i]) (cs ! i) \<and> members_ok g p cs js)"
  by (auto simp: members_ok_def)

lemma buildable_group:
  "buildable g p (XsdGroup m cs occ) =
     (supported occ \<and> (m = ''sequence'' \<or> m = ''choice'' \<or> m = ''all'') \<and>
      (m = ''choice'' \<or> g p \<noteq> []) \<and> members_ok g p cs (g p))"
  by (auto simp: members_ok_def list_all_iff)

declare buildable.simps(2) [simp del]

lemma buildable_local:
  "(\<And>r. g (p @ r) = g' (p @ r)) \<Longrightarrow> buildable g p t = buildable g' p t"
proof (induction g p t arbitrary: g' rule: buildable.induct)
  case (1 g p nm occ)
  show ?case by simp
next
  case (2 g p m cs occ)
  have gp: "g p = g' p" using "2.prems" [of "[]"] by simp
  have "buildable g (p @ [i]) (cs ! i) = buildable g' (p @ [i]) (cs ! i)"
    if "i \<in> set (g p)" "i < length cs" for i
  proof (rule "2.IH" [OF that])
    fix r
    show "g ((p @ [i]) @ r) = g' ((p @ [i]) @ r)"
      using "2.prems" [of "i # r"] by simp
  qed
  then have "members_ok g p cs (g p) = members_ok g' p cs (g p)"
    by (auto simp: members_ok_def list_all_iff)
  with gp show ?case by (simp add: buildable_group)
qed

lemma members_ok_upd [simp]:
  "members_ok (g(p := q)) p cs js = members_ok g p cs js"
proof -
  have "buildable (g(p := q)) (p @ [i]) t = buildable g (p @ [i]) t" for i t
    by (rule buildable_local) simp
  then show ?thesis by (simp add: members_ok_def)
qed

lemma members_ok_set: "set js = set js' \<Longrightarrow> members_ok g p cs js = members_ok g p cs js'"
  by (simp add: members_ok_def list_all_iff)

subsection \<open>Permutations\<close>

lemma picks_set: "(y, ys) \<in> set (picks xs) \<Longrightarrow> insert y (set ys) = set xs"
proof (induction xs arbitrary: y ys)
  case Nil
  then show ?case by simp
next
  case (Cons x xs)
  show ?case
  proof (cases "(y, ys) = (x, xs)")
    case True
    then show ?thesis by auto
  next
    case False
    with Cons.prems obtain zs where z: "(y, zs) \<in> set (picks xs)" and ys: "ys = x # zs"
      by auto
    from Cons.IH [OF z] ys show ?thesis by auto
  qed
qed

lemma permutations_set_length:
  "q \<in> set (permutations xs) \<Longrightarrow> set q = set xs \<and> length q = length xs"
proof (induction xs arbitrary: q rule: permutations.induct)
  case (1 xs)
  show ?case
  proof (cases "xs = []")
    case True
    with "1.prems" show ?thesis by (simp add: permutations.simps)
  next
    case False
    with "1.prems" obtain y ys q' where pk: "(y, ys) \<in> set (picks xs)"
      and q: "q = y # q'" and q': "q' \<in> set (permutations ys)"
      by (subst (asm) permutations.simps) auto
    from "1.IH" [OF False pk refl q'] have "set q' = set ys" "length q' = length ys"
      by simp_all
    with picks_set [OF pk] picks_length [OF pk] q show ?thesis by auto
  qed
qed

lemma permutations_first: "\<exists>rest. permutations xs = xs # rest"
proof (induction xs)
  case Nil
  show ?case by (simp add: permutations.simps)
next
  case (Cons x xs)
  then obtain rest where r: "permutations xs = xs # rest" by blast
  show ?case
    by (subst permutations.simps) (simp add: r)
qed

lemmas build_simps =
  nfa_from_node.simps nfa_from_member.simps nfa_from_sequence.simps sequence_rest.simps
  choice_loop.simps all_loop.simps

declare build_simps [simp del]

lemma if_fun_upd: "(\<lambda>a. if a = p then q else g a) = g(p := q)"
  by (simp add: fun_eq_iff)

lemma new_state_group [simp]: "group (snd (new_state c)) = group c"
  by (simp add: new_state_def Let_def)

lemma patch_all_ok:
  "set vs \<subseteq> keys c \<Longrightarrow>
     \<exists>c'. patch_all vs n c = (Inr (), c') \<and> group c' = group c \<and> keys c' = keys c"
proof -
  assume "set vs \<subseteq> keys c"
  then obtain c' where p: "patch_all vs n c = (Inr (), c')"
    using patch_all_succeeds_iff by blast
  with patch_all_frame [OF p] show ?thesis by simp
qed

lemma wrap_store:
  assumes "\<forall>init vac. r = Inr (init, vac) \<longrightarrow> set vac \<subseteq> keys c1"
  shows "group (snd (wrap_occurs occ (r, c1))) = group c1 \<and>
         (isl (fst (wrap_occurs occ (r, c1))) \<longleftrightarrow> isl r \<or> \<not> supported occ)"
proof (cases r)
  case (Inl e)
  then show ?thesis by (simp add: wrap_occurs_def)
next
  case (Inr f)
  obtain init vac where f: "f = (init, vac)" by (cases f)
  have v: "set vac \<subseteq> keys c1" using assms Inr f by simp
  consider "occ = (1, Some 1)" | "occ = (0, Some 1)" | "occ = (0, None)" | "occ = (1, None)"
    | "\<not> supported occ"
    unfolding supported_def by blast
  then show ?thesis
  proof cases
    case 1
    then show ?thesis by (simp add: wrap_occurs_def Inr f supported_def)
  next
    case 2
    then show ?thesis by (simp add: wrap_occurs_def Inr f supported_def)
  next
    case 3
    obtain c2 where "patch_all vac init c1 = (Inr (), c2)" "group c2 = group c1"
      using patch_all_ok [OF v] by blast
    with 3 show ?thesis by (simp add: wrap_occurs_def Inr f supported_def)
  next
    case 4
    obtain nxt c1' where n: "new_state c1 = (nxt, c1')" by (cases "new_state c1")
    have c1': "c1' = snd (new_state c1)" using n by simp
    have "set vac \<subseteq> keys c1'" using v unfolding c1' by simp
    then obtain c2 where "patch_all vac nxt c1' = (Inr (), c2)" "group c2 = group c1'"
      using patch_all_ok by blast
    moreover have "group c1' = group c1" unfolding c1' by simp
    ultimately show ?thesis using 4 n by (simp add: wrap_occurs_def Inr f supported_def)
  next
    case 5
    then show ?thesis by (auto simp: wrap_occurs_def Inr f supported_def)
  qed
qed

definition seq_ok :: "(path \<Rightarrow> nat list) \<Rightarrow> path \<Rightarrow> node list \<Rightarrow> nat list \<Rightarrow> bool" where
  "seq_ok g p cs q = (q \<noteq> [] \<and> members_ok g p cs q)"

lemma seq_ok_upd [simp]: "seq_ok (g(p := q)) p cs js = seq_ok g p cs js"
  by (simp add: seq_ok_def)

lemma seq_ok_upd' [simp]: "seq_ok (g(p := q)) p cs = seq_ok g p cs"
  by (simp add: fun_eq_iff)

lemma build_store:
  shows "group (snd (nfa_from_node p t c)) = group c \<and>
         (isl (fst (nfa_from_node p t c)) \<longleftrightarrow> \<not> buildable (group c) p t)"
    and "group (snd (nfa_from_member p cs i c)) = group c \<and>
         (isl (fst (nfa_from_member p cs i c)) \<longleftrightarrow>
            \<not> (i < length cs \<and> buildable (group c) (p @ [i]) (cs ! i)))"
    and "group (snd (nfa_from_sequence p cs c)) = group c \<and>
         (isl (fst (nfa_from_sequence p cs c)) \<longleftrightarrow> \<not> seq_ok (group c) p cs (group c p))"
    and "set vacant \<subseteq> keys c \<longrightarrow>
         group (snd (sequence_rest p cs js init vacant c)) = group c \<and>
         (isl (fst (sequence_rest p cs js init vacant c)) \<longleftrightarrow> \<not> members_ok (group c) p cs js)"
    and "group (snd (choice_loop p cs js x vacants c)) = group c \<and>
         (isl (fst (choice_loop p cs js x vacants c)) \<longleftrightarrow> \<not> members_ok (group c) p cs js)"
    and "(list_all (seq_ok (group c) p cs) qs \<longrightarrow>
            \<not> isl (fst (all_loop p cs qs x vacants c)) \<and>
            group (snd (all_loop p cs qs x vacants c)) =
              (if qs = [] then group c else (group c)(p := last qs))) \<and>
         (qs \<noteq> [] \<and> \<not> seq_ok (group c) p cs (hd qs) \<longrightarrow>
            isl (fst (all_loop p cs qs x vacants c)) \<and>
            group (snd (all_loop p cs qs x vacants c)) = (group c)(p := hd qs))"
proof (induction p t c and p cs i c and p cs c and p cs js init vacant c
         and p cs js x vacants c and p cs qs x vacants c rule: build_induct)
  case (1 p nm occ c)
  obtain x c1 where n: "new_state c = (x, c1)" by (cases "new_state c")
  have c1: "c1 = snd (new_state c)" using n by simp
  let ?c2 = "(add_transition x nm None c1)\<lparr>elements := AList.update nm p (elements c1)\<rparr>"
  have e: "nfa_from_node p (XsdElement nm occ) c = wrap_occurs occ (Inr (x, [x]), ?c2)"
    by (simp add: build_simps nfa_from_element_def n)
  have g: "group ?c2 = group c" unfolding c1 by simp
  have "\<forall>init vac. (Inr (x, [x]) :: error + fragment) = Inr (init, vac) \<longrightarrow> set vac \<subseteq> keys ?c2"
    by auto
  from wrap_store [OF this, where occ = occ] g show ?case unfolding e by simp
next
  case (2 p m cs occ c)
  obtain x c1 where n: "new_state c = (x, c1)" by (cases "new_state c")
  have c1: "c1 = snd (new_state c)" using n by simp
  have gc1: "group c1 = group c" unfolding c1 by simp
  consider "m = ''sequence''" | "m \<noteq> ''sequence''" "m = ''choice''"
    | "m \<noteq> ''sequence''" "m \<noteq> ''choice''" "m = ''all''"
    | "m \<noteq> ''sequence''" "m \<noteq> ''choice''" "m \<noteq> ''all''"
    by blast
  then show ?case
  proof cases
    case 1
    obtain r c2 where b: "nfa_from_sequence p cs c = (r, c2)"
      by (cases "nfa_from_sequence p cs c")
    have e: "nfa_from_node p (XsdGroup m cs occ) c = wrap_occurs occ (r, c2)"
      by (simp add: nfa_from_node.simps 1 b)
    have ih: "group c2 = group c \<and> (isl r \<longleftrightarrow> \<not> seq_ok (group c) p cs (group c p))"
      using "2.IH"(1) [OF 1] unfolding b by simp
    have "\<forall>init vac. r = Inr (init, vac) \<longrightarrow> set vac \<subseteq> keys c2"
      using build_post(3) [of c p cs] unfolding b by (simp add: frag_post_def)
    from wrap_store [OF this, where occ = occ] ih 1 show ?thesis
      unfolding e by (auto simp: buildable_group seq_ok_def)
  next
    case 2
    let ?rc = "choice_loop p cs (group c p) x [] c1"
    obtain r c2 where b: "?rc = (r, c2)" by (cases ?rc)
    have e: "nfa_from_node p (XsdGroup m cs occ) c = wrap_occurs occ (r, c2)"
      by (simp add: nfa_from_node.simps 2 n gc1 b)
    have ih: "group c2 = group c \<and> (isl r \<longleftrightarrow> \<not> members_ok (group c) p cs (group c p))"
      using "2.IH"(2) [OF 2 n [symmetric]] unfolding gc1 b by simp
    have "loop_post [] c1 ?rc" using build_post(5) [of "[]" c1] by simp
    then have "\<forall>init vac. r = Inr (init, vac) \<longrightarrow> set vac \<subseteq> keys c2"
      unfolding b by (simp add: loop_post_def)
    from wrap_store [OF this, where occ = occ] ih 2 show ?thesis
      unfolding e by (auto simp: buildable_group)
  next
    case 3
    let ?g0 = "group c p"
    let ?qs = "permutations ?g0"
    let ?rc = "all_loop p cs ?qs x [] c1"
    obtain r c2 where b: "?rc = (r, c2)" by (cases ?rc)
    obtain rest where pf: "?qs = ?g0 # rest"
      using permutations_first by blast
    have same: "seq_ok (group c) p cs q = seq_ok (group c) p cs ?g0"
      if "q \<in> set ?qs" for q
    proof -
      from permutations_set_length [OF that] have "set q = set ?g0" "length q = length ?g0"
        by simp_all
      then have "members_ok (group c) p cs q = members_ok (group c) p cs ?g0"
        "q = [] \<longleftrightarrow> ?g0 = []"
        using members_ok_set [of q ?g0] by auto
      then show ?thesis by (simp add: seq_ok_def)
    qed
    have ne: "?qs \<noteq> []" "hd ?qs = ?g0" using pf by simp_all
    have ih: "(list_all (seq_ok (group c) p cs) ?qs \<longrightarrow>
                \<not> isl r \<and> group c2 = (group c)(p := last ?qs)) \<and>
              (\<not> seq_ok (group c) p cs ?g0 \<longrightarrow>
                isl r \<and> group c2 = (group c)(p := ?g0))"
      using "2.IH"(3) [OF 3 refl n [symmetric]] unfolding gc1 b using ne
      by (simp add: if_fun_upd)
    have "loop_post [] c1 ?rc" using build_post(6) [of "[]" c1] by simp
    then have vk: "\<forall>init vac. r = Inr (init, vac) \<longrightarrow> set vac \<subseteq> keys c2"
      unfolding b by (simp add: loop_post_def)
    define c3 where "c3 = (if isl r then c2 else c2\<lparr>group := (group c2)(p := ?g0)\<rparr>)"
    have e: "nfa_from_node p (XsdGroup m cs occ) c = wrap_occurs occ (r, c3)"
      by (cases r) (simp_all add: nfa_from_node.simps 3 n gc1 b c3_def Let_def)
    have base: "group c3 = group c \<and> (isl r \<longleftrightarrow> \<not> seq_ok (group c) p cs ?g0)"
    proof (cases "seq_ok (group c) p cs ?g0")
      case True
      then have "list_all (seq_ok (group c) p cs) ?qs"
        using same by (simp add: list_all_iff)
      with ih have "\<not> isl r" "group c2 = (group c)(p := last ?qs)" by simp_all
      with True show ?thesis by (simp add: c3_def)
    next
      case False
      with ih have "isl r" "group c2 = (group c)(p := ?g0)" by simp_all
      with False show ?thesis by (simp add: c3_def)
    qed
    have "\<forall>init vac. r = Inr (init, vac) \<longrightarrow> set vac \<subseteq> keys c3"
      using vk by (simp add: c3_def)
    from wrap_store [OF this, where occ = occ] base 3 show ?thesis
      unfolding e by (auto simp: buildable_group seq_ok_def)
  next
    case 4
    then show ?thesis by (simp add: nfa_from_node.simps buildable_group)
  qed
next
  case (3 p cs i c)
  then show ?case by (simp add: nfa_from_member.simps)
next
  case (4 p cs c)
  show ?case
  proof (cases "group c p")
    case Nil
    then show ?thesis by (simp add: nfa_from_sequence.simps seq_ok_def)
  next
    case (Cons i rest)
    obtain r1 c1 where m: "nfa_from_member p cs i c = (r1, c1)"
      by (cases "nfa_from_member p cs i c")
    have ih1: "group c1 = group c"
      "isl r1 \<longleftrightarrow> \<not> (i < length cs \<and> buildable (group c) (p @ [i]) (cs ! i))"
      using "4.IH"(1) [OF Cons] unfolding m by simp_all
    show ?thesis
    proof (cases r1)
      case (Inl e)
      have "nfa_from_sequence p cs c = (Inl e, c1)"
        by (simp add: nfa_from_sequence.simps Cons m Inl)
      with Cons ih1 Inl show ?thesis by (auto simp: seq_ok_def)
    next
      case (Inr f)
      obtain init vacant where f: "f = (init, vacant)" by (cases f)
      have v1: "set vacant \<subseteq> keys c1"
        using build_post(2) [of c p cs i] unfolding m by (simp add: frag_post_def Inr f)
      let ?r = "sequence_rest p cs rest init vacant c1"
      have e: "nfa_from_sequence p cs c = ?r"
        by (simp add: nfa_from_sequence.simps Cons m Inr f ih1)
      have "group (snd ?r) = group c1 \<and>
            (isl (fst ?r) \<longleftrightarrow> \<not> members_ok (group c1) p cs rest)"
        using "4.IH"(2) [OF Cons m [symmetric] Inr f [symmetric]] v1
        by (simp add: ih1 Cons)
      with Cons Inr ih1 show ?thesis unfolding e by (auto simp: seq_ok_def)
    qed
  qed
next
  case (5 p cs init vacant c)
  show ?case by (simp add: sequence_rest.simps)
next
  case (6 p cs i js init vacant c)
  show ?case
  proof
    assume pre: "set vacant \<subseteq> keys c"
    obtain r1 c1 where m: "nfa_from_member p cs i c = (r1, c1)"
      by (cases "nfa_from_member p cs i c")
    have ih1: "group c1 = group c"
      "isl r1 \<longleftrightarrow> \<not> (i < length cs \<and> buildable (group c) (p @ [i]) (cs ! i))"
      using "6.IH"(1) unfolding m by simp_all
    let ?goal = "group (snd (sequence_rest p cs (i # js) init vacant c)) = group c \<and>
         (isl (fst (sequence_rest p cs (i # js) init vacant c)) \<longleftrightarrow>
            \<not> members_ok (group c) p cs (i # js))"
    show ?goal
    proof (cases r1)
      case (Inl e)
      have "sequence_rest p cs (i # js) init vacant c = (Inl e, c1)"
        by (simp add: sequence_rest.simps m Inl)
      with ih1 Inl show ?thesis by auto
    next
      case (Inr f)
      obtain init2 vacant2 where f: "f = (init2, vacant2)" by (cases f)
      have fp: "frag_post c (r1, c1)" using build_post(2) [of c p cs i] unfolding m .
      then have v2: "set vacant2 \<subseteq> keys c1" and k1: "keys c \<subseteq> keys c1"
        using Inr f by (auto simp: frag_post_def grows_def)
      have "set vacant \<subseteq> keys c1" using pre k1 by blast
      then obtain c2 where pa: "patch_all vacant init2 c1 = (Inr (), c2)"
        and g2: "group c2 = group c1" and k2: "keys c2 = keys c1"
        using patch_all_ok by blast
      let ?r = "sequence_rest p cs js init vacant2 c2"
      have e: "sequence_rest p cs (i # js) init vacant c = ?r"
        by (simp add: sequence_rest.simps m Inr f pa)
      have "group (snd ?r) = group c2 \<and>
            (isl (fst ?r) \<longleftrightarrow> \<not> members_ok (group c2) p cs js)"
        using "6.IH"(2) [OF m [symmetric] Inr f [symmetric] pa [symmetric] refl] v2 k2
        by simp
      with Inr g2 ih1 show ?thesis unfolding e by auto
    qed
  qed
next
  case (7 p cs x vacants c)
  show ?case by (simp add: choice_loop.simps)
next
  case (8 p cs i js x vacants c)
  obtain r1 c1 where m: "nfa_from_member p cs i c = (r1, c1)"
    by (cases "nfa_from_member p cs i c")
  have ih1: "group c1 = group c"
    "isl r1 \<longleftrightarrow> \<not> (i < length cs \<and> buildable (group c) (p @ [i]) (cs ! i))"
    using "8.IH"(1) unfolding m by simp_all
  show ?case
  proof (cases r1)
    case (Inl e)
    have "choice_loop p cs (i # js) x vacants c = (Inl e, c1)"
      by (simp add: choice_loop.simps m Inl)
    with ih1 Inl show ?thesis by auto
  next
    case (Inr f)
    obtain init vacant where f: "f = (init, vacant)" by (cases f)
    let ?c2 = "add_transition x '''' (Some init) c1"
    let ?r = "choice_loop p cs js x (List.union vacants vacant) ?c2"
    have e: "choice_loop p cs (i # js) x vacants c = ?r"
      by (simp add: choice_loop.simps m Inr f)
    have "group (snd ?r) = group ?c2 \<and>
          (isl (fst ?r) \<longleftrightarrow> \<not> members_ok (group ?c2) p cs js)"
      using "8.IH"(2) [OF m [symmetric] Inr f [symmetric]] by simp
    with Inr ih1 show ?thesis unfolding e by auto
  qed
next
  case (9 p cs x vacants c)
  show ?case by (simp add: all_loop.simps)
next
  case (10 p cs q qs x vacants c)
  let ?c0 = "c\<lparr>group := (group c)(p := q)\<rparr>"
  obtain r1 c1 where m: "nfa_from_sequence p cs ?c0 = (r1, c1)"
    by (cases "nfa_from_sequence p cs ?c0")
  have "group c1 = group ?c0 \<and> (isl r1 \<longleftrightarrow> \<not> seq_ok (group ?c0) p cs (group ?c0 p))"
    using "10.IH"(1) unfolding m by (simp add: if_fun_upd)
  then have ih1: "group c1 = (group c)(p := q)" "isl r1 \<longleftrightarrow> \<not> seq_ok (group c) p cs q"
    by (simp_all add: seq_ok_def)
  show ?case
  proof (cases r1)
    case (Inl e)
    have "all_loop p cs (q # qs) x vacants c = (Inl e, c1)"
      by (simp add: all_loop.simps m Inl)
    with ih1 Inl show ?thesis by auto
  next
    case (Inr f)
    obtain init vacant where f: "f = (init, vacant)" by (cases f)
    let ?c2 = "add_transition x '''' (Some init) c1"
    let ?r = "all_loop p cs qs x (List.union vacants vacant) ?c2"
    have g2: "group ?c2 = (group c)(p := q)" using ih1 by simp
    have so: "seq_ok (group ?c2) p cs = seq_ok (group c) p cs"
      by (simp add: ih1(1) seq_ok_def fun_eq_iff)
    have ih2: "(list_all (seq_ok (group c) p cs) qs \<longrightarrow>
                  \<not> isl (fst ?r) \<and>
                  group (snd ?r) = (if qs = [] then (group c)(p := q) else (group c)(p := last qs))) \<and>
               (qs \<noteq> [] \<and> \<not> seq_ok (group c) p cs (hd qs) \<longrightarrow>
                  isl (fst ?r) \<and> group (snd ?r) = (group c)(p := hd qs))"
      using "10.IH"(2) [OF m [symmetric] Inr f [symmetric]]
      by (simp add: ih1(1) if_fun_upd)
    have e: "all_loop p cs (q # qs) x vacants c = ?r"
      by (simp add: all_loop.simps m Inr f)
    from ih1 Inr have okq: "seq_ok (group c) p cs q" by simp
    show ?thesis unfolding e using ih2 okq by auto
  qed
qed

section \<open>The tree is left as it was\<close>

lemma finalize_group: "group (snd (finalize t c0)) = group c0"
proof -
  obtain r c where b: "nfa_from_node [] t c0 = (r, c)" by (cases "nfa_from_node [] t c0")
  have g: "group c = group c0" using build_store(1) [of "[]" t c0] unfolding b by simp
  show ?thesis
  proof (cases r)
    case (Inl e)
    with b g show ?thesis by (simp add: finalize_def)
  next
    case (Inr f)
    obtain init finals where f: "f = (init, finals)" by (cases f)
    obtain final c1 where n: "new_state c = (final, c1)" by (cases "new_state c")
    have g1: "group c1 = group c" using new_state_frame [OF n] by simp
    let ?c2 = "c1\<lparr>nfa_state_transitions := AList.update final [] (nfa_state_transitions c1)\<rparr>"
    obtain r3 c3 where pa: "patch_all finals final ?c2 = (r3, c3)"
      by (cases "patch_all finals final ?c2")
    have "group c3 = group ?c2" using patch_all_frame [OF pa] by simp
    with g g1 b Inr f n pa show ?thesis
      by (cases r3) (simp_all add: finalize_def)
  qed
qed

lemma build_nfa_group: "group (snd (build_nfa t c0)) = group c0"
  using finalize_group [of t c0]
  by (auto simp: build_nfa_def Let_def split: prod.splits sum.splits)

lemma run_group: "snd (run_dfa_from_group from_nfa minimize t g) = g"
  using build_nfa_group [of t "init_ctx g"]
  by (auto simp: run_dfa_from_group_def init_ctx_def split: prod.splits sum.splits)

section \<open>Unsupported occurrence pairs\<close>














section \<open>The emitted record\<close>

lemma emit_InrD:
  assumes "emit P els = Inr out"
  shows "\<exists>ids rows.
           traverse (getitem (state_map_of P)) (filter (\<lambda>x. x \<noteq> trap) (pdfa_states P)) = Inr ids \<and>
           traverse
             (\<lambda>q. case getitem (state_map_of P) q of
                     Inl e \<Rightarrow> Inl e
                   | Inr n \<Rightarrow>
                       (case out_row P (state_map_of P) q (pdfa_alphabet P) of
                          Inl e \<Rightarrow> Inl e
                        | Inr r \<Rightarrow> Inr (n, dict_of r)))
             (filter (\<lambda>x. x \<noteq> trap) (pdfa_states P)) = Inr rows \<and>
           out_states out = set ids \<and> out_transitions out = dict_of rows"
  using assms by (auto simp: emit_def Let_def split: sum.splits)

lemma emit_closed:
  assumes "emit P els = Inr out" and "(i, row) \<in> set (out_transitions out)"
  shows "i \<in> out_states out \<and> (\<forall>(k, j) \<in> set row. j \<in> out_states out)"
proof -
  let ?sm = "state_map_of P"
  let ?live = "filter (\<lambda>x. x \<noteq> trap) (pdfa_states P)"
  let ?f = "\<lambda>q. case getitem ?sm q of
                   Inl e \<Rightarrow> Inl e
                 | Inr n \<Rightarrow>
                     (case out_row P ?sm q (pdfa_alphabet P) of
                        Inl e \<Rightarrow> Inl e
                      | Inr r \<Rightarrow> Inr (n, dict_of r))"
  from emit_InrD [OF assms(1)] obtain ids rows where
    ids: "traverse (getitem ?sm) ?live = Inr ids" and rows: "traverse ?f ?live = Inr rows"
    and st: "out_states out = set ids" and tr: "out_transitions out = dict_of rows"
    by blast
  have ids_set: "set ids = {y. \<exists>x \<in> set ?live. getitem ?sm x = Inr y}"
    using traverse_set [OF ids] .
  from assms(2) tr have "(i, row) \<in> set rows" using set_dict_of by fastforce
  from traverse_mem [OF rows this] obtain q where q: "q \<in> set ?live" and fq: "?f q = Inr (i, row)"
    by blast
  from fq obtain r where gi: "getitem ?sm q = Inr i"
    and orow: "out_row P ?sm q (pdfa_alphabet P) = Inr r" and row: "row = dict_of r"
    by (auto split: sum.splits)
  have i: "i \<in> out_states out" using q gi ids_set st by blast
  have "j \<in> out_states out" if "(k, j) \<in> set row" for k j
  proof -
    from that row have "(k, j) \<in> set r" using set_dict_of by fastforce
    from out_row_targets [OF orow this] obtain q' where
      q': "q' \<noteq> trap" "getitem ?sm q' = Inr j" by blast
    then have "q' \<in> set ?live" using getitem_state_map by simp
    with q' ids_set st show ?thesis by blast
  qed
  with i show ?thesis by blast
qed

lemma state_map_nth:
  assumes "distinct (pdfa_states P)" and "i < length (pdfa_states P)"
  shows "map_of (state_map_of P) (pdfa_states P ! i) = Some i"
proof -
  let ?S = "pdfa_states P"
  let ?kvs = "map (\<lambda>(v, k). (k, v)) (enumerate 0 ?S)"
  have fst: "map fst ?kvs = ?S"
    by (simp add: enumerate_eq_zip map_snd_zip comp_def case_prod_unfold)
  have "distinct (map fst (rev ?kvs))"
    using assms(1) unfolding rev_map [symmetric] fst by simp
  moreover have "(?S ! i, i) \<in> set (rev ?kvs)"
    using assms(2) by (force simp: enumerate_eq_zip in_set_zip)
  ultimately have "map_of (rev ?kvs) (?S ! i) = Some i" by (rule map_of_is_SomeI)
  then show ?thesis by (simp add: state_map_of_def map_of_dict_of)
qed

lemma emit_states:
  assumes "emit P els = Inr out" and "distinct (pdfa_states P)"
  shows "out_states out = {i. i < length (pdfa_states P) \<and> pdfa_states P ! i \<noteq> trap}"
proof -
  let ?S = "pdfa_states P"
  from emit_InrD [OF assms(1)] obtain ids where
    ids: "traverse (getitem (state_map_of P)) (filter (\<lambda>x. x \<noteq> trap) ?S) = Inr ids"
    and st: "out_states out = set ids"
    by blast
  have "set ids = {y. \<exists>x \<in> set (filter (\<lambda>x. x \<noteq> trap) ?S). getitem (state_map_of P) x = Inr y}"
    using traverse_set [OF ids] .
  also have "\<dots> = {i. i < length ?S \<and> ?S ! i \<noteq> trap}"
  proof (rule set_eqI, rule iffI)
    fix y
    assume "y \<in> {y. \<exists>x \<in> set (filter (\<lambda>x. x \<noteq> trap) ?S). getitem (state_map_of P) x = Inr y}"
    then obtain x where x: "x \<in> set ?S" "x \<noteq> trap" "getitem (state_map_of P) x = Inr y"
      by auto
    from x(1) obtain i where i: "i < length ?S" "x = ?S ! i" by (auto simp: in_set_conv_nth)
    with state_map_nth [OF assms(2) i(1)] x(3) have "y = i" by (simp add: getitem_def)
    with i x(2) show "y \<in> {i. i < length ?S \<and> ?S ! i \<noteq> trap}" by simp
  next
    fix y
    assume "y \<in> {i. i < length ?S \<and> ?S ! i \<noteq> trap}"
    then have y: "y < length ?S" "?S ! y \<noteq> trap" by simp_all
    have "?S ! y \<in> set (filter (\<lambda>x. x \<noteq> trap) ?S)" using y by simp
    moreover have "getitem (state_map_of P) (?S ! y) = Inr y"
      using state_map_nth [OF assms(2) y(1)] by (simp add: getitem_def)
    ultimately show "y \<in> {y. \<exists>x \<in> set (filter (\<lambda>x. x \<noteq> trap) ?S). getitem (state_map_of P) x = Inr y}"
      by blast
  qed
  finally show ?thesis using st by simp
qed

lemma emit_dense:
  assumes "emit P els = Inr out" and "distinct (pdfa_states P)"
    and "trap \<notin> set (pdfa_states P) \<or> last (pdfa_states P) = trap"
  shows "out_states out = {0..<length (filter (\<lambda>q. q \<noteq> trap) (pdfa_states P))}"
proof -
  let ?S = "pdfa_states P"
  have st: "out_states out = {i. i < length ?S \<and> ?S ! i \<noteq> trap}"
    using emit_states [OF assms(1,2)] .
  show ?thesis
  proof (cases "trap \<in> set ?S")
    case False
    then have "filter (\<lambda>q. q \<noteq> trap) ?S = ?S" by (auto simp: filter_id_conv)
    moreover have "{i. i < length ?S \<and> ?S ! i \<noteq> trap} = {0..<length ?S}"
      using False by (auto simp: in_set_conv_nth)
    ultimately show ?thesis using st by simp
  next
    case True
    with assms(3) have l: "last ?S = trap" and ne: "?S \<noteq> []" by auto
    then obtain ss where ss: "?S = ss @ [trap]"
      by (metis append_butlast_last_id)
    have nt: "trap \<notin> set ss" using assms(2) unfolding ss by simp
    then have "filter (\<lambda>q. q \<noteq> trap) ?S = ss" unfolding ss by (auto simp: filter_id_conv)
    moreover have "{i. i < length ?S \<and> ?S ! i \<noteq> trap} = {0..<length ss}"
      unfolding ss using nt by (auto simp: nth_append in_set_conv_nth)
    ultimately show ?thesis using st by simp
  qed
qed

lemma run_InrD:
  assumes "fst (run_dfa_from_group from_nfa minimize t g) = Inr out"
  shows "\<exists>n c. build_nfa t (init_ctx g) = (Inr n, c) \<and>
               emit (minimize (pdfa_of (from_nfa n))) (elements c) = Inr out"
  using assms by (auto simp: run_dfa_from_group_def split: prod.splits sum.splits)



section \<open>The numbers in the record, the tree after the call, unsupported occurrence pairs\<close>

text \<open>
  C7. Whatever automaton the two libraries hand over: when \<^verbatim>\<open>dfa_from_group\<close>
  returns a record, every key of \<^verbatim>\<open>out["transitions"]\<close> and every target in its
  rows is a member of \<^verbatim>\<open>out["states"]\<close>, the numbers of the states other than the
  trap.
\<close>

theorem transitions_stay_among_states:
  assumes "fst (run_dfa_from_group from_nfa minimize t g) = Inr out"
    and "(i, row) \<in> set (out_transitions out)"
  shows "i \<in> out_states out \<and> (\<forall>(k, j) \<in> set row. j \<in> out_states out)"
proof -
  from run_InrD [OF assms(1)] obtain n and c :: ctx where
    "emit (minimize (pdfa_of (from_nfa n))) (elements c) = Inr out" by blast
  from emit_closed [OF this assms(2)] show ?thesis .
qed

lemma optional_A_record:
  "dfa_from_group (XsdElement ''A'' (0, Some 1)) =
     Inr \<lparr>out_states = {0, 1}, out_start = 0, out_accepts = {0, 1},
          out_transitions = [(0, [(''A'', 1)]), (1, [])],
          out_elements = [(''A'', [])]\<rparr>"
  by code_simp

theorem transitions_stay_among_states_witness:
  "dfa_from_group (XsdElement ''A'' (0, Some 1)) =
     Inr \<lparr>out_states = {0, 1}, out_start = 0, out_accepts = {0, 1},
          out_transitions = [(0, [(''A'', 1)]), (1, [])],
          out_elements = [(''A'', [])]\<rparr> \<and>
   (0::nat) \<in> {0, 1} \<and> (1::nat) \<in> {0, 1}"
  using transitions_stay_among_states
    [of DFA_from_nfa pDFA_minimize "XsdElement ''A'' (0, Some 1)"
        "group_of (XsdElement ''A'' (0, Some 1))"
        "\<lparr>out_states = {0, 1}, out_start = 0, out_accepts = {0, 1},
          out_transitions = [(0, [(''A'', 1)]), (1, [])],
          out_elements = [(''A'', [])]\<rparr>" 0 "[(''A'', 1)]"]
    optional_A_record
  by (simp add: dfa_from_group_def)







lemma optional_A_nfa:
  "fst (build_nfa (XsdElement ''A'' (0, Some 1)) (init_ctx (group_of (XsdElement ''A'' (0, Some 1)))))
     = Inr \<lparr>states = {1, 0}, input_symbols = [''A''],
             transitions = [(0, [(''A'', {Some 1}), ('''', {Some 1})]), (1, [])],
             initial_state = 0, final_states = {1}\<rparr>"
  by (simp add: build_nfa_def finalize_def all_symbols_def builder_defs build_simps
        List.union_def List.insert_def)



text \<open>
  C9. The store of the \<^verbatim>\<open>_group\<close> fields is the same after the call as before it,
  whether the function returns or raises, for every tree, every store and both
  libraries. (The other fields of the tree are never assigned.)
\<close>

theorem tree_is_left_unchanged:
  "snd (run_dfa_from_group from_nfa minimize t g) = g"
  by (rule run_group)





section \<open>The determiniser keeps the language\<close>

subsection \<open>The worklist computes the epsilon closure\<close>

lemma eps_rel_Image: "eps_rel N `` {q} = set (step_targets N q '''')"
  by (auto simp: eps_rel_def)

lemma rtrancl_Image_unfold: "R\<^sup>* `` {q} = insert q (R\<^sup>* `` (R `` {q}))"
  by (auto elim: converse_rtranclE intro: converse_rtrancl_into_rtrancl)

lemma closed_seen:
  assumes "\<forall>q \<in> seen. R `` {q} \<subseteq> seen \<union> todo"
  shows "R\<^sup>* `` seen \<subseteq> seen \<union> R\<^sup>* `` todo"
proof
  fix y
  assume "y \<in> R\<^sup>* `` seen"
  then obtain q where q: "q \<in> seen" and r: "(q, y) \<in> R\<^sup>*" by blast
  from r show "y \<in> seen \<union> R\<^sup>* `` todo"
  proof (induction rule: rtrancl_induct)
    case base
    with q show ?case by simp
  next
    case (step y z)
    show ?case
    proof (cases "y \<in> seen")
      case True
      with assms step.hyps(2) have "z \<in> seen \<union> todo" by blast
      then show ?thesis by blast
    next
      case False
      with step.IH have "y \<in> R\<^sup>* `` todo" by simp
      with step.hyps(2) have "z \<in> R\<^sup>* `` todo" by (blast intro: rtrancl_into_rtrancl)
      then show ?thesis by simp
    qed
  qed
qed

lemma closure_loop_set:
  "\<forall>q \<in> set seen. eps_rel N `` {q} \<subseteq> set seen \<union> set todo \<Longrightarrow>
     set (closure_loop N todo seen) = set seen \<union> (eps_rel N)\<^sup>* `` set todo"
proof (induction N todo seen rule: closure_loop.induct)
  case (1 N seen)
  show ?case by simp
next
  case (2 N q todo seen)
  let ?R = "eps_rel N"
  show ?case
  proof (cases "q \<in> set seen")
    case True
    have pre: "\<forall>q' \<in> set seen. ?R `` {q'} \<subseteq> set seen \<union> set todo"
      using "2.prems" True by auto
    from "2.IH"(1) [OF True pre] True
    have r: "set (closure_loop N (q # todo) seen) = set seen \<union> ?R\<^sup>* `` set todo" by simp
    have "?R\<^sup>* `` {q} \<subseteq> ?R\<^sup>* `` set seen" using True by blast
    with closed_seen [OF pre] have "?R\<^sup>* `` {q} \<subseteq> set seen \<union> ?R\<^sup>* `` set todo" by blast
    moreover have "?R\<^sup>* `` set (q # todo) = ?R\<^sup>* `` {q} \<union> ?R\<^sup>* `` set todo" by auto
    ultimately show ?thesis using r by blast
  next
    case False
    let ?succ = "step_targets N q ''''"
    have pre: "\<forall>q' \<in> set (q # seen). ?R `` {q'} \<subseteq> set (q # seen) \<union> set (?succ @ todo)"
      using "2.prems" eps_rel_Image [of N q] by auto
    from "2.IH"(2) [OF False pre] False
    have r: "set (closure_loop N (q # todo) seen) =
               set (q # seen) \<union> ?R\<^sup>* `` set (?succ @ todo)" by simp
    have "?R\<^sup>* `` {q} = insert q (?R\<^sup>* `` set ?succ)"
      using rtrancl_Image_unfold [of ?R q] eps_rel_Image [of N q] by simp
    moreover have "?R\<^sup>* `` set (q # todo) = ?R\<^sup>* `` {q} \<union> ?R\<^sup>* `` set todo" by auto
    moreover have "?R\<^sup>* `` set (?succ @ todo) = ?R\<^sup>* `` set ?succ \<union> ?R\<^sup>* `` set todo" by auto
    ultimately show ?thesis using r by auto
  qed
qed

lemma epsilon_closure_set: "set (epsilon_closure N ws) = nfa_closure N (set ws)"
  using closure_loop_set [of "[]" N ws] by (simp add: epsilon_closure_def nfa_closure_def)

lemma dfa_step_set: "set (dfa_step N S a) = nfa_step N (set S) a"
  by (simp add: dfa_step_def epsilon_closure_set nfa_step_def)

lemma foldl_dfa_step_set:
  "set (foldl (dfa_step N) S w) = foldl (nfa_step N) (set S) w"
  by (induction w arbitrary: S) (simp_all add: dfa_step_set)

subsection \<open>The exploration finds a closed set of states\<close>

lemma explore_closed:
  "\<forall>S \<in> set seen. \<forall>a \<in> set (input_symbols N). dfa_step N S a \<in> set seen \<union> set todo \<Longrightarrow>
     set seen \<union> set todo \<subseteq> set (explore N todo seen) \<and>
     (\<forall>S \<in> set (explore N todo seen). \<forall>a \<in> set (input_symbols N).
        dfa_step N S a \<in> set (explore N todo seen))"
proof (induction N todo seen rule: explore.induct)
  case (1 N seen)
  then show ?case by simp
next
  case (2 N S todo seen)
  show ?case
  proof (cases "S \<in> set seen")
    case True
    have pre: "\<forall>S' \<in> set seen. \<forall>a \<in> set (input_symbols N).
                 dfa_step N S' a \<in> set seen \<union> set todo"
      using "2.prems" True by auto
    from "2.IH"(1) [OF True pre] True show ?thesis by auto
  next
    case False
    let ?todo = "todo @ map (dfa_step N S) (input_symbols N)"
    have pre: "\<forall>S' \<in> set (seen @ [S]). \<forall>a \<in> set (input_symbols N).
                 dfa_step N S' a \<in> set (seen @ [S]) \<union> set ?todo"
      using "2.prems" by auto
    from "2.IH"(2) [OF False pre] False show ?thesis by auto
  qed
qed

lemma explore_distinct: "distinct seen \<Longrightarrow> distinct (explore N todo seen)"
  by (induction N todo seen rule: explore.induct) auto

subsection \<open>The DFA handed to the minimiser\<close>

definition closed_pdfa :: "pdfa \<Rightarrow> bool" where
  "closed_pdfa A =
     (distinct (pdfa_states A) \<and> pdfa_start A \<in> set (pdfa_states A) \<and>
      (\<forall>q \<in> set (pdfa_states A). \<forall>a \<in> set (pdfa_alphabet A).
         \<exists>q' \<in> set (pdfa_states A). pdfa_delta A q a = Some q'))"

lemma map_of_graph: "a \<in> set xs \<Longrightarrow> map_of (map (\<lambda>a. (a, f a)) xs) a = Some (f a)"
  by (induction xs) auto

lemma from_nfa_facts:
  shows "pdfa_states (pdfa_of (DFA_from_nfa N)) =
           explore N [epsilon_closure N [initial_state N]] []"
    and "pdfa_alphabet (pdfa_of (DFA_from_nfa N)) = input_symbols N"
    and "pdfa_start (pdfa_of (DFA_from_nfa N)) = epsilon_closure N [initial_state N]"
    and "pdfa_accepts (pdfa_of (DFA_from_nfa N)) =
           filter (\<lambda>S. \<exists>q \<in> set S. q \<in> final_states N)
             (pdfa_states (pdfa_of (DFA_from_nfa N)))"
    and "q \<in> set (pdfa_states (pdfa_of (DFA_from_nfa N))) \<Longrightarrow> a \<in> set (input_symbols N) \<Longrightarrow>
           pdfa_delta (pdfa_of (DFA_from_nfa N)) q a = Some (dfa_step N q a)"
proof -
  let ?A = "pdfa_of (DFA_from_nfa N)"
  let ?found = "explore N [epsilon_closure N [initial_state N]] []"
  show "pdfa_states ?A = ?found" and "pdfa_alphabet ?A = input_symbols N"
    and "pdfa_start ?A = epsilon_closure N [initial_state N]"
    by (simp_all add: pdfa_of_def DFA_from_nfa_def Let_def)
  then show "pdfa_accepts ?A =
           filter (\<lambda>S. \<exists>q \<in> set S. q \<in> final_states N) (pdfa_states ?A)"
    by (simp add: pdfa_of_def DFA_from_nfa_def Let_def)
  assume q: "q \<in> set (pdfa_states ?A)" and a: "a \<in> set (input_symbols N)"
  from q have "q \<in> set ?found" by (simp add: pdfa_of_def DFA_from_nfa_def Let_def)
  then have "map_of (map (\<lambda>S. (S, map (\<lambda>a. (a, dfa_step N S a)) (input_symbols N))) ?found) q
               = Some (map (\<lambda>a. (a, dfa_step N q a)) (input_symbols N))"
    by (rule map_of_graph)
  with map_of_graph [OF a, of "dfa_step N q"] show "pdfa_delta ?A q a = Some (dfa_step N q a)"
    by (simp add: pdfa_of_def DFA_from_nfa_def Let_def)
qed

lemma from_nfa_closed: "closed_pdfa (pdfa_of (DFA_from_nfa N))"
proof -
  let ?A = "pdfa_of (DFA_from_nfa N)"
  let ?start = "epsilon_closure N [initial_state N]"
  have st: "pdfa_states ?A = explore N [?start] []" by (rule from_nfa_facts(1))
  have ex: "set [] \<union> set [?start] \<subseteq> set (explore N [?start] []) \<and>
            (\<forall>S \<in> set (explore N [?start] []). \<forall>a \<in> set (input_symbols N).
               dfa_step N S a \<in> set (explore N [?start] []))"
    by (rule explore_closed) simp
  have "distinct (pdfa_states ?A)" unfolding st by (rule explore_distinct) simp
  moreover have "pdfa_start ?A \<in> set (pdfa_states ?A)"
    using ex unfolding st from_nfa_facts(3) by simp
  moreover have "\<exists>q' \<in> set (pdfa_states ?A). pdfa_delta ?A q a = Some q'"
    if "q \<in> set (pdfa_states ?A)" "a \<in> set (pdfa_alphabet ?A)" for q a
  proof -
    from that(2) have a: "a \<in> set (input_symbols N)" by (simp add: from_nfa_facts(2))
    from that(1) a ex have "dfa_step N q a \<in> set (pdfa_states ?A)" unfolding st by blast
    with from_nfa_facts(5) [OF that(1) a] show ?thesis by simp
  qed
  ultimately show ?thesis unfolding closed_pdfa_def by blast
qed

lemma from_nfa_run:
  assumes "q \<in> set (pdfa_states (pdfa_of (DFA_from_nfa N)))"
    and "set w \<subseteq> set (input_symbols N)"
  shows "pdfa_run (pdfa_of (DFA_from_nfa N)) q w = Some (foldl (dfa_step N) q w) \<and>
         foldl (dfa_step N) q w \<in> set (pdfa_states (pdfa_of (DFA_from_nfa N)))"
  using assms
proof (induction w arbitrary: q)
  case Nil
  then show ?case by simp
next
  case (Cons a w)
  let ?A = "pdfa_of (DFA_from_nfa N)"
  from Cons.prems have a: "a \<in> set (input_symbols N)" and w: "set w \<subseteq> set (input_symbols N)"
    by simp_all
  have d: "pdfa_delta ?A q a = Some (dfa_step N q a)"
    using from_nfa_facts(5) [OF Cons.prems(1) a] .
  have "dfa_step N q a \<in> set (pdfa_states ?A)"
    using from_nfa_closed [of N] Cons.prems(1) a d
    by (fastforce simp: closed_pdfa_def from_nfa_facts(2))
  from Cons.IH [OF this w] d show ?case by simp
qed

lemma from_nfa_language:
  assumes "set w \<subseteq> set (input_symbols N)"
  shows "pdfa_accepts_word (pdfa_of (DFA_from_nfa N)) w \<longleftrightarrow> nfa_accepts N w"
proof -
  let ?A = "pdfa_of (DFA_from_nfa N)"
  let ?start = "epsilon_closure N [initial_state N]"
  let ?S = "foldl (dfa_step N) ?start w"
  have s: "?start \<in> set (pdfa_states ?A)"
    using from_nfa_closed [of N] by (simp add: closed_pdfa_def from_nfa_facts(3))
  from from_nfa_run [OF s assms]
  have run: "pdfa_run ?A (pdfa_start ?A) w = Some ?S" and mem: "?S \<in> set (pdfa_states ?A)"
    by (simp_all add: from_nfa_facts(3))
  have "set ?S = foldl (nfa_step N) (nfa_closure N {initial_state N}) w"
    by (simp add: foldl_dfa_step_set epsilon_closure_set)
  then have "(\<exists>q \<in> set ?S. q \<in> final_states N) \<longleftrightarrow> nfa_accepts N w"
    by (auto simp: nfa_accepts_def)
  moreover have "pdfa_accepts_word ?A w \<longleftrightarrow> (\<exists>q \<in> set ?S. q \<in> final_states N)"
    using run mem by (simp add: pdfa_accepts_word_def from_nfa_facts(4))
  ultimately show ?thesis by simp
qed

section \<open>The minimiser keeps the language\<close>

subsection \<open>Partitions\<close>

text \<open>
  The blocks of a partition are not empty, no state is in two of them, together they
  hold the states of the automaton, and a block is accepting or rejecting as a whole.
\<close>

definition part_ok :: "pdfa \<Rightarrow> dstate list list \<Rightarrow> bool" where
  "part_ok A P =
     ((\<forall>B \<in> set P. B \<noteq> []) \<and> distinct (concat P) \<and>
      set (concat P) = set (pdfa_states A) \<and>
      (\<forall>B \<in> set P. \<forall>q \<in> set B. \<forall>q' \<in> set B.
         (q \<in> set (pdfa_accepts A)) = (q' \<in> set (pdfa_accepts A))))"

definition stable :: "pdfa \<Rightarrow> dstate list list \<Rightarrow> bool" where
  "stable A P =
     (\<forall>B \<in> set P. \<forall>q \<in> set B. \<forall>q' \<in> set B. signature A P q = signature A P q')"

lemma group_by_subset: "B \<in> set (group_by f xs) \<Longrightarrow> set B \<subseteq> set xs"
proof (induction f xs arbitrary: B rule: group_by.induct)
  case (1 f)
  then show ?case by simp
next
  case (2 f x xs)
  from "2.prems" consider "B = x # filter (\<lambda>y. f y = f x) xs"
    | "B \<in> set (group_by f (filter (\<lambda>y. f y \<noteq> f x) xs))" by auto
  then show ?case
  proof cases
    case 1
    then show ?thesis by auto
  next
    case 2
    from "2.IH" [OF this] show ?thesis by auto
  qed
qed

lemma set_concat_group_by: "set (concat (group_by f xs)) = set xs"
proof (induction f xs rule: group_by.induct)
  case (1 f)
  show ?case by simp
next
  case (2 f x xs)
  then show ?case by auto
qed

lemma distinct_concat_group_by: "distinct xs \<Longrightarrow> distinct (concat (group_by f xs))"
proof (induction f xs rule: group_by.induct)
  case (1 f)
  show ?case by simp
next
  case (2 f x xs)
  have "distinct (concat (group_by f (filter (\<lambda>y. f y \<noteq> f x) xs)))"
    using 2 by simp
  moreover have "set (concat (group_by f (filter (\<lambda>y. f y \<noteq> f x) xs)))
                   = set (filter (\<lambda>y. f y \<noteq> f x) xs)"
    by (rule set_concat_group_by)
  ultimately show ?case using "2.prems" by auto
qed

lemma group_by_single:
  assumes "length (group_by f xs) \<le> 1" and "q \<in> set xs" and "q' \<in> set xs"
  shows "f q = f q'"
proof (cases xs)
  case Nil
  with assms(2) show ?thesis by simp
next
  case (Cons x ys)
  with assms(1) have "group_by f (filter (\<lambda>y. f y \<noteq> f x) ys) = []" by simp
  then have "filter (\<lambda>y. f y \<noteq> f x) ys = []" by (simp add: group_by_Nil_iff)
  then have "\<forall>y \<in> set ys. f y = f x" by (simp add: filter_empty_conv)
  with assms(2,3) Cons show ?thesis by auto
qed

lemma set_concat_refine: "set (concat (concat (map (group_by f) P))) = set (concat P)"
proof (induction P)
  case Nil
  show ?case by simp
next
  case (Cons B P)
  have "set (concat (group_by f B)) = set B" by (rule set_concat_group_by)
  with Cons show ?case by simp
qed

lemma distinct_concat_refine:
  "distinct (concat P) \<Longrightarrow> distinct (concat (concat (map (group_by f) P)))"
proof (induction P)
  case Nil
  show ?case by simp
next
  case (Cons B P)
  from Cons.prems have d: "distinct B" "distinct (concat P)" "set B \<inter> set (concat P) = {}"
    by simp_all
  have "distinct (concat (group_by f B))" using d(1) by (rule distinct_concat_group_by)
  moreover have "distinct (concat (concat (map (group_by f) P)))" using Cons.IH d(2) by simp
  moreover have "set (concat (group_by f B)) \<inter> set (concat (concat (map (group_by f) P))) = {}"
    using d(3) by (simp only: set_concat_group_by set_concat_refine)
  ultimately show ?case by simp
qed

lemma part_ok_refine:
  assumes "part_ok A P"
  shows "part_ok A (refine A P)"
proof -
  let ?f = "signature A P"
  have "B \<noteq> []" if "B \<in> set (refine A P)" for B using that by (rule refine_blocks_nonempty)
  moreover have "distinct (concat (refine A P))"
    using assms distinct_concat_refine [of P ?f] by (simp add: part_ok_def refine_def)
  moreover have "set (concat (refine A P)) = set (pdfa_states A)"
    using assms set_concat_refine [of ?f P] by (simp add: part_ok_def refine_def)
  moreover have "(q \<in> set (pdfa_accepts A)) = (q' \<in> set (pdfa_accepts A))"
    if "B' \<in> set (refine A P)" "q \<in> set B'" "q' \<in> set B'" for B' q q'
  proof -
    from that(1) obtain B where B: "B \<in> set P" "B' \<in> set (group_by ?f B)"
      by (auto simp: refine_def)
    from group_by_subset [OF B(2)] that(2,3) have "q \<in> set B" "q' \<in> set B" by auto
    with assms B(1) show ?thesis unfolding part_ok_def by blast
  qed
  ultimately show ?thesis unfolding part_ok_def by blast
qed

lemma moore_result: "part_ok A P \<Longrightarrow> part_ok A (moore A P) \<and> stable A (moore A P)"
proof (induction A P rule: moore.induct)
  case (1 A P)
  show ?case
  proof (cases "splittable A P")
    case True
    from "1.IH" [OF True part_ok_refine [OF "1.prems"]] True show ?thesis
      by (subst (1 2) moore.simps) simp
  next
    case False
    have "signature A P q = signature A P q'" if "B \<in> set P" "q \<in> set B" "q' \<in> set B" for B q q'
    proof -
      from False that(1) have "length (group_by (signature A P) B) \<le> 1"
        by (auto simp: splittable_def list_ex_iff not_less)
      from group_by_single [OF this that(2,3)] show ?thesis .
    qed
    then have "stable A P" unfolding stable_def by blast
    with False "1.prems" show ?thesis by (subst (1 2) moore.simps) simp
  qed
qed

lemma part_ok_initial:
  assumes "distinct (pdfa_states A)"
  shows "part_ok A
           (filter (\<lambda>B. B \<noteq> [])
              [filter (\<lambda>q. q \<in> set (pdfa_accepts A)) (pdfa_states A),
               filter (\<lambda>q. q \<notin> set (pdfa_accepts A)) (pdfa_states A)])"
  using assms unfolding part_ok_def by (auto simp: filter_empty_conv)

subsection \<open>The block of a state\<close>

lemma block_of_unique:
  "distinct (concat P) \<Longrightarrow> B \<in> set P \<Longrightarrow> q \<in> set B \<Longrightarrow> block_of P q = Some B"
proof (induction P)
  case Nil
  then show ?case by simp
next
  case (Cons B0 P)
  show ?case
  proof (cases "q \<in> set B0")
    case True
    have "B = B0"
    proof (rule ccontr)
      assume "B \<noteq> B0"
      with Cons.prems(2) have "B \<in> set P" by simp
      with Cons.prems(3) have "q \<in> set (concat P)" by auto
      with True Cons.prems(1) show False by auto
    qed
    with True show ?thesis by (simp add: block_of_def)
  next
    case False
    with Cons.prems have "B \<in> set P" "distinct (concat P)" by auto
    from Cons.IH [OF this(2,1) Cons.prems(3)] False show ?thesis by (simp add: block_of_def)
  qed
qed

lemma block_of_state:
  assumes "part_ok A P" and "q \<in> set (pdfa_states A)"
  obtains B where "B \<in> set P" and "q \<in> set B" and "block_of P q = Some B"
proof -
  from assms have "q \<in> set (concat P)" by (simp add: part_ok_def)
  then obtain B where B: "B \<in> set P" "q \<in> set B" by auto
  from assms(1) have "distinct (concat P)" by (simp add: part_ok_def)
  from block_of_unique [OF this B] B that show ?thesis by blast
qed

subsection \<open>The quotient automaton\<close>

definition quotient :: "pdfa \<Rightarrow> dstate list list \<Rightarrow> pdfa" where
  "quotient A P =
     \<lparr>pdfa_states = map hd P,
      pdfa_alphabet = pdfa_alphabet A,
      pdfa_delta = (\<lambda>q a. map_option (representative P) (pdfa_delta A q a)),
      pdfa_start = representative P (pdfa_start A),
      pdfa_accepts = filter (\<lambda>q. q \<in> set (pdfa_accepts A)) (map hd P)\<rparr>"

lemma pDFA_minimize_quotient:
  "pDFA_minimize A =
     quotient A
       (moore A
          (filter (\<lambda>B. B \<noteq> [])
             [filter (\<lambda>q. q \<in> set (pdfa_accepts A)) (pdfa_states A),
              filter (\<lambda>q. q \<notin> set (pdfa_accepts A)) (pdfa_states A)]))"
  by (simp add: pDFA_minimize_def quotient_def Let_def)

lemma quotient_run:
  assumes "closed_pdfa A" and "part_ok A P" and "stable A P"
    and "B \<in> set P" and "q \<in> set B" and "set w \<subseteq> set (pdfa_alphabet A)"
  shows "\<exists>q' B'. pdfa_run A q w = Some q' \<and> B' \<in> set P \<and> q' \<in> set B' \<and>
                  pdfa_run (quotient A P) (hd B) w = Some (hd B')"
  using assms(4,5,6)
proof (induction w arbitrary: q B)
  case Nil
  then show ?case by auto
next
  case (Cons a w)
  from Cons.prems have a: "a \<in> set (pdfa_alphabet A)" and w: "set w \<subseteq> set (pdfa_alphabet A)"
    by simp_all
  have ne: "B \<noteq> []" using assms(2) Cons.prems(1) by (auto simp: part_ok_def)
  then have h: "hd B \<in> set B" by simp
  have st: "set B \<subseteq> set (pdfa_states A)"
    using assms(2) Cons.prems(1) by (auto simp: part_ok_def)
  from st Cons.prems(2) a assms(1) obtain q1 where
    q1: "pdfa_delta A q a = Some q1" "q1 \<in> set (pdfa_states A)"
    unfolding closed_pdfa_def by blast
  from st h a assms(1) obtain r1 where
    r1: "pdfa_delta A (hd B) a = Some r1" "r1 \<in> set (pdfa_states A)"
    unfolding closed_pdfa_def by blast
  from block_of_state [OF assms(2) q1(2)] obtain B1 where
    B1: "B1 \<in> set P" "q1 \<in> set B1" "block_of P q1 = Some B1" by blast
  have "signature A P q = signature A P (hd B)"
    using assms(3) Cons.prems(1,2) h unfolding stable_def by blast
  then have "(case pdfa_delta A q a of None \<Rightarrow> None | Some q' \<Rightarrow> Some (block_of P q')) =
             (case pdfa_delta A (hd B) a of None \<Rightarrow> None | Some q' \<Rightarrow> Some (block_of P q'))"
    using a by (simp add: signature_def)
  with q1(1) r1(1) B1(3) have "block_of P r1 = Some B1" by simp
  then have "representative P r1 = hd B1" by (simp add: representative_def)
  with r1(1) have d: "pdfa_delta (quotient A P) (hd B) a = Some (hd B1)"
    by (simp add: quotient_def)
  from Cons.IH [OF B1(1,2) w] obtain q' B' where
    "pdfa_run A q1 w = Some q'" "B' \<in> set P" "q' \<in> set B'"
    "pdfa_run (quotient A P) (hd B1) w = Some (hd B')" by blast
  with q1(1) d show ?case by auto
qed

lemma quotient_language:
  assumes "closed_pdfa A" and "part_ok A P" and "stable A P"
    and "set w \<subseteq> set (pdfa_alphabet A)"
  shows "pdfa_accepts_word (quotient A P) w \<longleftrightarrow> pdfa_accepts_word A w"
proof -
  from assms(1) have "pdfa_start A \<in> set (pdfa_states A)" by (simp add: closed_pdfa_def)
  from block_of_state [OF assms(2) this] obtain B0 where
    B0: "B0 \<in> set P" "pdfa_start A \<in> set B0" "block_of P (pdfa_start A) = Some B0" by blast
  have s: "pdfa_start (quotient A P) = hd B0"
    using B0(3) by (simp add: quotient_def representative_def)
  from quotient_run [OF assms(1,2,3) B0(1,2) assms(4)] obtain q' B' where
    r: "pdfa_run A (pdfa_start A) w = Some q'" "B' \<in> set P" "q' \<in> set B'"
       "pdfa_run (quotient A P) (hd B0) w = Some (hd B')" by blast
  have "B' \<noteq> []" using assms(2) r(2) by (auto simp: part_ok_def)
  then have h: "hd B' \<in> set B'" by simp
  have "(hd B' \<in> set (pdfa_accepts A)) = (q' \<in> set (pdfa_accepts A))"
    using assms(2) r(2,3) h unfolding part_ok_def by blast
  moreover have "hd B' \<in> set (map hd P)" using r(2) by simp
  ultimately have "hd B' \<in> set (pdfa_accepts (quotient A P)) \<longleftrightarrow> q' \<in> set (pdfa_accepts A)"
    by (simp add: quotient_def)
  with r(1,4) s show ?thesis by (simp add: pdfa_accepts_word_def)
qed

lemma minimize_language:
  assumes "closed_pdfa A" and "set w \<subseteq> set (pdfa_alphabet A)"
  shows "pdfa_accepts_word (pDFA_minimize A) w \<longleftrightarrow> pdfa_accepts_word A w"
proof -
  let ?P0 = "filter (\<lambda>B. B \<noteq> [])
               [filter (\<lambda>q. q \<in> set (pdfa_accepts A)) (pdfa_states A),
                filter (\<lambda>q. q \<notin> set (pdfa_accepts A)) (pdfa_states A)]"
  from assms(1) have "distinct (pdfa_states A)" by (simp add: closed_pdfa_def)
  then have "part_ok A ?P0" by (rule part_ok_initial)
  then have "part_ok A (moore A ?P0)" "stable A (moore A ?P0)"
    using moore_result by blast+
  from quotient_language [OF assms(1) this assms(2)] show ?thesis
    by (simp only: pDFA_minimize_quotient)
qed

section \<open>The NFA and the minimised DFA accept the same words\<close>

lemma pipeline_language:
  assumes "set w \<subseteq> set (input_symbols N)"
  shows "pdfa_accepts_word (pDFA_minimize (pdfa_of (DFA_from_nfa N))) w \<longleftrightarrow> nfa_accepts N w"
proof -
  have "set w \<subseteq> set (pdfa_alphabet (pdfa_of (DFA_from_nfa N)))"
    using assms by (simp add: from_nfa_facts(2))
  from minimize_language [OF from_nfa_closed this] from_nfa_language [OF assms]
  show ?thesis by simp
qed

lemma run_with_libraries:
  assumes "fst (build_nfa t (init_ctx g)) = Inr N"
  shows "fst (run_dfa_from_group DFA_from_nfa pDFA_minimize t g) =
           emit (pDFA_minimize (pdfa_of (DFA_from_nfa N)))
             (elements (snd (build_nfa t (init_ctx g))))"
  using assms by (cases "build_nfa t (init_ctx g)") (simp add: run_dfa_from_group_def)

text \<open>
  C3. Let \<open>N\<close> be the NFA that lines 131 to 146 build for a tree. The record is made
  from the automaton \<open>pDFA_minimize (pdfa_of (DFA_from_nfa N))\<close>, and a word over the
  alphabet of \<open>N\<close> is accepted by \<open>N\<close>, simulated on sets of states with epsilon
  closure, exactly when this automaton accepts it.
\<close>

theorem nfa_and_minimal_dfa_accept_the_same:
  assumes "fst (build_nfa t (init_ctx g)) = Inr N" and "set w \<subseteq> set (input_symbols N)"
  shows "fst (run_dfa_from_group DFA_from_nfa pDFA_minimize t g) =
           emit (pDFA_minimize (pdfa_of (DFA_from_nfa N)))
             (elements (snd (build_nfa t (init_ctx g)))) \<and>
         (nfa_accepts N w \<longleftrightarrow>
            pdfa_accepts_word (pDFA_minimize (pdfa_of (DFA_from_nfa N))) w)"
  using run_with_libraries [OF assms(1)] pipeline_language [OF assms(2)] by simp

lemma optional_A_words:
  "pdfa_accepts_word (pDFA_minimize (pdfa_of (DFA_from_nfa
      \<lparr>states = {1, 0}, input_symbols = [''A''],
        transitions = [(0, [(''A'', {Some 1}), ('''', {Some 1})]), (1, [])],
        initial_state = 0, final_states = {1}\<rparr>))) [''A'']"
  "\<not> pdfa_accepts_word (pDFA_minimize (pdfa_of (DFA_from_nfa
      \<lparr>states = {1, 0}, input_symbols = [''A''],
        transitions = [(0, [(''A'', {Some 1}), ('''', {Some 1})]), (1, [])],
        initial_state = 0, final_states = {1}\<rparr>))) [''A'', ''A'']"
  by code_simp+

theorem nfa_and_minimal_dfa_accept_the_same_witness:
  "fst (build_nfa (XsdElement ''A'' (0, Some 1))
          (init_ctx (group_of (XsdElement ''A'' (0, Some 1))))) =
     Inr \<lparr>states = {1, 0}, input_symbols = [''A''],
          transitions = [(0, [(''A'', {Some 1}), ('''', {Some 1})]), (1, [])],
          initial_state = 0, final_states = {1}\<rparr> \<and>
   nfa_accepts
     \<lparr>states = {1, 0}, input_symbols = [''A''],
      transitions = [(0, [(''A'', {Some 1}), ('''', {Some 1})]), (1, [])],
      initial_state = 0, final_states = {1}\<rparr> [''A''] \<and>
   \<not> nfa_accepts
     \<lparr>states = {1, 0}, input_symbols = [''A''],
      transitions = [(0, [(''A'', {Some 1}), ('''', {Some 1})]), (1, [])],
      initial_state = 0, final_states = {1}\<rparr> [''A'', ''A'']"
  using nfa_and_minimal_dfa_accept_the_same [OF optional_A_nfa, of "[''A'']"]
    nfa_and_minimal_dfa_accept_the_same [OF optional_A_nfa, of "[''A'', ''A'']"]
    optional_A_nfa optional_A_words
  by simp


end
